theory Spec2Isabelle
  imports Complex_Main
begin

section \<open>Boards\<close>

text \<open>
  A state is a Python list of five lists of five one-character strings: a blank for an
  empty cell, \<open>b\<close> and \<open>r\<close> for the two piece colours. The class attribute
  \<open>my_piece\<close> is passed explicitly as the first argument of every method that reads it.

  Python raises IndexError on a read outside a list; \<open>xs ! i\<close> is unspecified there.
  The source does not guard against malformed grids, so the statements below that depend on
  cell reads carry the hypothesis \<open>wf_state\<close>, under which every read of the source is
  in range.
\<close>

type_synonym board = "char list list"

definition pieces :: "char list" where
  "pieces = [CHR ''b'', CHR ''r'']"

definition wf_state :: "board \<Rightarrow> bool" where
  "wf_state state \<longleftrightarrow>
     length state = 5 \<and>
     list_all (\<lambda>row. length row = 5 \<and>
                list_all (\<lambda>c. c = CHR '' '' \<or> c = CHR ''b'' \<or> c = CHR ''r'') row) state"

definition opponent_piece :: "char \<Rightarrow> char" where
  "opponent_piece my_piece = (if my_piece = CHR ''b'' then CHR ''r'' else CHR ''b'')"

section \<open>Terminal detection: game_value\<close>

text \<open>\<open>all(window[k] == p for k in range(4))\<close>.\<close>

definition all_eq :: "char list \<Rightarrow> char \<Rightarrow> bool" where
  "all_eq window p = list_all (\<lambda>c. c = p) window"

text \<open>
  One pass of a window loop of \<open>game_value\<close>: at each window the own piece is tested
  first, then the opponent's; the first hit returns. \<open>None\<close> means the loop ran to its end.
\<close>

fun scan_windows :: "char \<Rightarrow> char \<Rightarrow> char list list \<Rightarrow> int option" where
  "scan_windows my_piece opp [] = None"
| "scan_windows my_piece opp (w # ws) =
     (if all_eq w my_piece then Some 1
      else if all_eq w opp then Some (- 1)
      else scan_windows my_piece opp ws)"

text \<open>The windows in the order the four line loops visit them.\<close>

definition row_windows :: "board \<Rightarrow> char list list" where
  "row_windows state =
     concat (map (\<lambda>row. map (\<lambda>j. map (\<lambda>k. row ! (j + k)) [0..<4]) [0..<2]) state)"

definition col_windows :: "board \<Rightarrow> char list list" where
  "col_windows state =
     concat (map (\<lambda>i. map (\<lambda>j. map (\<lambda>k. state ! (i + k) ! j) [0..<4]) [0..<5]) [0..<2])"

definition diag_dr_windows :: "board \<Rightarrow> char list list" where
  "diag_dr_windows state =
     concat (map (\<lambda>i. map (\<lambda>j. map (\<lambda>k. state ! (i + k) ! (j + k)) [0..<4]) [0..<2]) [0..<2])"

definition diag_dl_windows :: "board \<Rightarrow> char list list" where
  "diag_dl_windows state =
     concat (map (\<lambda>i. map (\<lambda>j. map (\<lambda>k. state ! (i + k) ! (j - k)) [0..<4]) [4, 3]) [0..<2])"

definition square_anchors :: "(nat \<times> nat) list" where
  "square_anchors = concat (map (\<lambda>i. map (\<lambda>j. (i, j)) [0..<4]) [0..<4])"

fun scan_squares :: "char \<Rightarrow> char \<Rightarrow> board \<Rightarrow> (nat \<times> nat) list \<Rightarrow> int option" where
  "scan_squares my_piece opp state [] = None"
| "scan_squares my_piece opp state ((i, j) # ps) =
     (if state ! i ! j = state ! i ! (j + 1) \<and>
         state ! i ! (j + 1) = state ! (i + 1) ! j \<and>
         state ! (i + 1) ! j = state ! (i + 1) ! (j + 1)
      then (if state ! i ! j = my_piece then Some 1
            else if state ! i ! j = opp then Some (- 1)
            else scan_squares my_piece opp state ps)
      else scan_squares my_piece opp state ps)"

definition game_value :: "char \<Rightarrow> board \<Rightarrow> int" where
  "game_value my_piece state =
     (let opp = opponent_piece my_piece in
      case scan_windows my_piece opp (row_windows state) of Some v \<Rightarrow> v | None \<Rightarrow>
      (case scan_windows my_piece opp (col_windows state) of Some v \<Rightarrow> v | None \<Rightarrow>
      (case scan_windows my_piece opp (diag_dr_windows state) of Some v \<Rightarrow> v | None \<Rightarrow>
      (case scan_windows my_piece opp (diag_dl_windows state) of Some v \<Rightarrow> v | None \<Rightarrow>
      (case scan_squares my_piece opp state square_anchors of Some v \<Rightarrow> v | None \<Rightarrow> 0)))))"

text \<open>
  The winning shapes as the specification lists them, stated independently of the scan:
  four equal cells in a horizontal, vertical or diagonal window, or a 2x2 block.
\<close>

definition four_in_line :: "board \<Rightarrow> char \<Rightarrow> bool" where
  "four_in_line state p \<longleftrightarrow>
     (\<exists>i<5. \<exists>j<2. \<forall>k<4. state ! i ! (j + k) = p) \<or>
     (\<exists>i<2. \<exists>j<5. \<forall>k<4. state ! (i + k) ! j = p) \<or>
     (\<exists>i<2. \<exists>j<2. \<forall>k<4. state ! (i + k) ! (j + k) = p) \<or>
     (\<exists>i<2. \<exists>j\<in>{3, 4}. \<forall>k<4. state ! (i + k) ! (j - k) = p)"

definition block_2x2 :: "board \<Rightarrow> char \<Rightarrow> bool" where
  "block_2x2 state p \<longleftrightarrow>
     (\<exists>i<4. \<exists>j<4. state ! i ! j = p \<and> state ! i ! (j + 1) = p \<and>
                    state ! (i + 1) ! j = p \<and> state ! (i + 1) ! (j + 1) = p)"

definition winning_shape :: "board \<Rightarrow> char \<Rightarrow> bool" where
  "winning_shape state p \<longleftrightarrow> four_in_line state p \<or> block_2x2 state p"

text \<open>The boards of the specification's scenarios B and C.\<close>

definition empty_row :: "char list" where
  "empty_row = replicate 5 (CHR '' '')"

definition row0_board :: "char \<Rightarrow> board" where
  "row0_board p = [[p, p, p, p, CHR '' ''], empty_row, empty_row, empty_row, empty_row]"

definition block00_board :: "char \<Rightarrow> board" where
  "block00_board p =
     [[p, p, CHR '' '', CHR '' '', CHR '' ''], [p, p, CHR '' '', CHR '' '', CHR '' ''],
      empty_row, empty_row, empty_row]"

text \<open>A board on which both sides have four in a row: the opponent in row 0, self in row 1.\<close>

definition both_win_board :: "char \<Rightarrow> board" where
  "both_win_board my_piece =
     [[opponent_piece my_piece, opponent_piece my_piece, opponent_piece my_piece,
       opponent_piece my_piece, CHR '' ''],
      [my_piece, my_piece, my_piece, my_piece, CHR '' ''],
      empty_row, empty_row, empty_row]"

text \<open>
  The cells of every window in the order \<open>game_value\<close> visits them, as the specification
  enumerates them: rows, columns, down-right diagonals, down-left diagonals, 2x2 blocks.
\<close>

definition row_cells :: "(nat \<times> nat) list list" where
  "row_cells = concat (map (\<lambda>i. map (\<lambda>j. map (\<lambda>k. (i, j + k)) [0..<4]) [0..<2]) [0..<5])"

definition col_cells :: "(nat \<times> nat) list list" where
  "col_cells = concat (map (\<lambda>i. map (\<lambda>j. map (\<lambda>k. (i + k, j)) [0..<4]) [0..<5]) [0..<2])"

definition diag_dr_cells :: "(nat \<times> nat) list list" where
  "diag_dr_cells = concat (map (\<lambda>i. map (\<lambda>j. map (\<lambda>k. (i + k, j + k)) [0..<4]) [0..<2]) [0..<2])"

definition diag_dl_cells :: "(nat \<times> nat) list list" where
  "diag_dl_cells = concat (map (\<lambda>i. map (\<lambda>j. map (\<lambda>k. (i + k, j - k)) [0..<4]) [4, 3]) [0..<2])"

definition square_cells :: "(nat \<times> nat) list list" where
  "square_cells = map (\<lambda>(i, j). [(i, j), (i, j + 1), (i + 1, j), (i + 1, j + 1)]) square_anchors"

definition scan_order :: "(nat \<times> nat) list list" where
  "scan_order = row_cells @ col_cells @ diag_dr_cells @ diag_dl_cells @ square_cells"

definition filled :: "board \<Rightarrow> char \<Rightarrow> (nat \<times> nat) list \<Rightarrow> bool" where
  "filled state p cells = list_all (\<lambda>(i, j). state ! i ! j = p) cells"

definition first_completed :: "char \<Rightarrow> board \<Rightarrow> (nat \<times> nat) list option" where
  "first_completed my_piece state =
     find (\<lambda>cells. filled state my_piece cells \<or> filled state (opponent_piece my_piece) cells) scan_order"

definition read_cells :: "board \<Rightarrow> (nat \<times> nat) list \<Rightarrow> char list" where
  "read_cells s cells = map (\<lambda>(i, j). s ! i ! j) cells"

definition verdict :: "board \<Rightarrow> char \<Rightarrow> (nat \<times> nat) list option \<Rightarrow> int option" where
  "verdict s mp r = (case r of None \<Rightarrow> None | Some cs \<Rightarrow> Some (if filled s mp cs then 1 else - 1))"

section \<open>Line scoring: evaluate_line\<close>

text \<open>
  Python floats are read as the real numbers they denote, and float arithmetic as exact
  arithmetic. The statements about \<open>evaluate_line\<close> below concern the branch taken and
  the expression evaluated there.
\<close>

definition evaluate_line :: "char list \<Rightarrow> char \<Rightarrow> char \<Rightarrow> real" where
  "evaluate_line line my_piece opponent =
     (let my_count = count_list line my_piece;
          opp_count = count_list line opponent;
          empty_count = count_list line (CHR '' '')
      in if opp_count > 0 \<and> my_count > 0 then
           (let block_bonus = (if opp_count = 3 \<and> empty_count = 1 then 0.75 else 0.0)
            in block_bonus + 0.15 * real my_count - 0.25 * real opp_count
                 + 0.05 * real empty_count)
         else if my_count = 3 \<and> empty_count = 1 then 0.75
         else if my_count = 2 \<and> empty_count \<ge> 2 then 0.50
         else if my_count = 1 then 0.25
         else 0.0)"

text \<open>
  The piecewise definition in the specification's words: the counts are the numbers of
  cells of the window holding the subject, the other identity and the blank; "contains both
  identities" is membership of both in the window.
\<close>

definition occurrences :: "char list \<Rightarrow> char \<Rightarrow> nat" where
  "occurrences window c = length (filter (\<lambda>x. x = c) window)"

definition line_score_spec :: "char list \<Rightarrow> char \<Rightarrow> char \<Rightarrow> real" where
  "line_score_spec window subject other =
     (let subject_count = occurrences window subject;
          other_count = occurrences window other;
          empty_count = occurrences window (CHR '' '')
      in if subject \<in> set window \<and> other \<in> set window then
           (if other_count = 3 \<and> empty_count = 1 then 0.75 else 0)
             + 0.15 * real subject_count - 0.25 * real other_count + 0.05 * real empty_count
         else if subject_count = 3 \<and> empty_count = 1 then 0.75
         else if subject_count = 2 \<and> empty_count \<ge> 2 then 0.50
         else if subject_count = 1 then 0.25
         else 0.0)"

section \<open>Depth selection in make_move\<close>

text \<open>\<open>sum(1 for row in state for cell in row if cell != ' ')\<close>.\<close>

definition total_pieces :: "board \<Rightarrow> nat" where
  "total_pieces state = length (filter (\<lambda>cell. cell \<noteq> CHR '' '') (concat state))"

definition drop_phase :: "board \<Rightarrow> bool" where
  "drop_phase state \<longleftrightarrow> total_pieces state < 8"

definition search_depth :: "board \<Rightarrow> int" where
  "search_depth state =
     (if drop_phase state then
        (if total_pieces state \<le> 4 then 3
         else if total_pieces state \<le> 6 then 4
         else 5)
      else 5)"

definition empty_board :: board where
  "empty_board = replicate 5 empty_row"

text \<open>Boards with 5, 7 and 8 pieces, one for each remaining branch of the depth choice.\<close>

definition five_piece_board :: board where
  "five_piece_board =
     [[CHR ''b'', CHR ''r'', CHR ''b'', CHR ''r'', CHR ''b''],
      empty_row, empty_row, empty_row, empty_row]"

definition seven_piece_board :: board where
  "seven_piece_board =
     [[CHR ''b'', CHR ''r'', CHR ''b'', CHR ''r'', CHR ''b''],
      [CHR ''r'', CHR ''b'', CHR '' '', CHR '' '', CHR '' ''],
      empty_row, empty_row, empty_row]"

definition eight_piece_board :: board where
  "eight_piece_board =
     [[CHR ''b'', CHR ''r'', CHR ''b'', CHR ''r'', CHR ''b''],
      [CHR ''r'', CHR ''b'', CHR ''r'', CHR '' '', CHR '' ''],
      empty_row, empty_row, empty_row]"

section \<open>Successor generation: succ\<close>

text \<open>
  \<open>state_copy[i][j] = v\<close> on a deep copy of the state. The writes of \<open>succ\<close> are guarded,
  so they are always in range.
\<close>

definition set_cell :: "board \<Rightarrow> nat \<Rightarrow> nat \<Rightarrow> char \<Rightarrow> board" where
  "set_cell state i j v = state[i := (state ! i)[j := v]]"

definition directions :: "(int \<times> int) list" where
  "directions = [(- 1, - 1), (- 1, 0), (- 1, 1), (0, - 1), (0, 1), (1, - 1), (1, 0), (1, 1)]"

definition piece_locs :: "board \<Rightarrow> char \<Rightarrow> (nat \<times> nat) list" where
  "piece_locs state my_piece = [(i, j). i \<leftarrow> [0..<5], j \<leftarrow> [0..<5], state ! i ! j = my_piece]"

definition succ_drop :: "board \<Rightarrow> char \<Rightarrow> board list" where
  "succ_drop state my_piece =
     [set_cell state row_idx col_idx my_piece.
        row_idx \<leftarrow> [0..<length state], col_idx \<leftarrow> [0..<length (state ! 0)],
        state ! row_idx ! col_idx = CHR '' '']"

text \<open>
  The candidate coordinates \<open>new_x\<close>, \<open>new_y\<close> are Python integers and may be -1, so they
  are integers here; the bounds test precedes the read, as in the source.
\<close>

definition succ_move :: "board \<Rightarrow> char \<Rightarrow> board list" where
  "succ_move state my_piece =
     concat (map (\<lambda>(x, y).
       concat (map (\<lambda>(dx, dy).
         (let new_x = int x + dx; new_y = int y + dy
          in if 0 \<le> new_x \<and> new_x < int (length state) \<and>
                0 \<le> new_y \<and> new_y < int (length (state ! 0)) \<and>
                state ! nat new_x ! nat new_y = CHR '' ''
             then [set_cell (set_cell state (nat new_x) (nat new_y) my_piece) x y (CHR '' '')]
             else [])) directions)) (piece_locs state my_piece))"

definition succ :: "board \<Rightarrow> char \<Rightarrow> board list" where
  "succ state my_piece =
     (if total_pieces state < 8 then succ_drop state my_piece else succ_move state my_piece)"

text \<open>
  The specification's view of the successors: the empty cells in row-major order, and the
  pairs of a cell holding the mover's piece and an empty cell of the grid at Chebyshev
  distance 1 from it, sources and destinations both in row-major order.
\<close>

definition all_cells :: "(nat \<times> nat) list" where
  "all_cells = List.product [0..<5] [0..<5]"

definition empty_cells :: "board \<Rightarrow> (nat \<times> nat) list" where
  "empty_cells state = filter (\<lambda>(i, j). state ! i ! j = CHR '' '') all_cells"

definition chebyshev :: "nat \<times> nat \<Rightarrow> nat \<times> nat \<Rightarrow> int" where
  "chebyshev a b = max \<bar>int (fst a) - int (fst b)\<bar> \<bar>int (snd a) - int (snd b)\<bar>"

definition move_pairs :: "board \<Rightarrow> char \<Rightarrow> ((nat \<times> nat) \<times> (nat \<times> nat)) list" where
  "move_pairs state p =
     concat (map (\<lambda>src. map (Pair src)
         (filter (\<lambda>dst. chebyshev src dst = 1 \<and> state ! fst dst ! snd dst = CHR '' '') all_cells))
       (filter (\<lambda>(x, y). state ! x ! y = p) all_cells))"

definition relocate :: "board \<Rightarrow> char \<Rightarrow> (nat \<times> nat) \<times> (nat \<times> nat) \<Rightarrow> board" where
  "relocate state p m =
     set_cell (set_cell state (fst (snd m)) (snd (snd m)) p) (fst (fst m)) (snd (fst m)) (CHR '' '')"

text \<open>A move-phase board with a piece of \<open>b\<close> in the corner (0,0) and free cells around it.\<close>

definition corner_board :: board where
  "corner_board =
     [[CHR ''b'', CHR '' '', CHR '' '', CHR '' '', CHR ''r''],
      empty_row,
      [CHR '' '', CHR ''b'', CHR ''r'', CHR '' '', CHR '' ''],
      [CHR '' '', CHR ''r'', CHR ''b'', CHR '' '', CHR '' ''],
      [CHR ''r'', CHR '' '', CHR '' '', CHR '' '', CHR ''b'']]"

text \<open>The in-bounds cells the eight offsets reach from a source cell, in offset order.\<close>

definition in_bounds_neighbours :: "nat \<times> nat \<Rightarrow> (nat \<times> nat) list" where
  "in_bounds_neighbours src =
     map (\<lambda>(dx, dy). (nat (int (fst src) + dx), nat (int (snd src) + dy)))
       (filter (\<lambda>(dx, dy). 0 \<le> int (fst src) + dx \<and> int (fst src) + dx < 5 \<and>
                            0 \<le> int (snd src) + dy \<and> int (snd src) + dy < 5) directions)"

section \<open>Move translation and application\<close>

datatype py_error = IndexError | TypeError

text \<open>
  \<open>self.board[i][j] = v\<close>: Python raises IndexError when an index is outside the list
  (the indices written by the code are never negative).
\<close>

definition write_cell :: "board \<Rightarrow> nat \<Rightarrow> nat \<Rightarrow> char \<Rightarrow> py_error + board" where
  "write_cell board i j v =
     (if i < length board \<and> j < length (board ! i) then Inr (set_cell board i j v)
      else Inl IndexError)"

text \<open>
  \<open>place_piece\<close> updates \<open>self.board\<close>; the board is passed in and the updated board
  returned. A move is the list \<open>[(row, col)]\<close> or \<open>[(row, col), (source_row, source_col)]\<close>.
\<close>

definition place_piece :: "board \<Rightarrow> (nat \<times> nat) list \<Rightarrow> char \<Rightarrow> py_error + board" where
  "place_piece board move piece =
     (case (if length move > 1
            then write_cell board (fst (move ! 1)) (snd (move ! 1)) (CHR '' '')
            else Inr board) of
        Inl e \<Rightarrow> Inl e
      | Inr board' \<Rightarrow>
          (case move of [] \<Rightarrow> Inl IndexError
           | dest # _ \<Rightarrow> write_cell board' (fst dest) (snd dest) piece))"

text \<open>The cells in the order of \<open>for i in range(5): for j in range(5)\<close>.\<close>

definition grid_cells :: "(nat \<times> nat) list" where
  "grid_cells = [(i, j). i \<leftarrow> [0..<5], j \<leftarrow> [0..<5]]"

text \<open>
  Drop phase of the translation in \<open>make_move\<close>: return at the first cell where the two
  states differ; when the loops end without a difference the empty move is returned.
\<close>

fun first_diff :: "board \<Rightarrow> board \<Rightarrow> (nat \<times> nat) list \<Rightarrow> (nat \<times> nat) list" where
  "first_diff state best_state [] = []"
| "first_diff state best_state ((i, j) # cells) =
     (if state ! i ! j \<noteq> best_state ! i ! j then [(i, j)]
      else first_diff state best_state cells)"

text \<open>
  Move phase: \<open>dest\<close> and \<open>source\<close> start as \<open>None\<close>, each is overwritten at every
  matching cell, and both loops are left as soon as both are set (a tuple is truthy).
\<close>

fun scan_move ::
  "char \<Rightarrow> board \<Rightarrow> board \<Rightarrow> (nat \<times> nat) list \<Rightarrow> (nat \<times> nat) option \<Rightarrow> (nat \<times> nat) option
     \<Rightarrow> (nat \<times> nat) option \<times> (nat \<times> nat) option" where
  "scan_move my_piece state best_state [] dest source = (dest, source)"
| "scan_move my_piece state best_state ((i, j) # cells) dest source =
     (let dest' = (if state ! i ! j = CHR '' '' \<and> best_state ! i ! j = my_piece
                   then Some (i, j) else dest);
          source' = (if state ! i ! j = my_piece \<and> best_state ! i ! j = CHR '' ''
                     then Some (i, j) else source)
      in if dest' \<noteq> None \<and> source' \<noteq> None then (dest', source')
         else scan_move my_piece state best_state cells dest' source')"

definition translate :: "char \<Rightarrow> board \<Rightarrow> board \<Rightarrow> (nat \<times> nat) list" where
  "translate my_piece state best_state =
     (if drop_phase state then first_diff state best_state grid_cells
      else (case scan_move my_piece state best_state grid_cells None None of
              (Some dest, Some source) \<Rightarrow> [dest, source]
            | _ \<Rightarrow> []))"

section \<open>Search: minimax with alpha-beta pruning\<close>

text \<open>
  Node values are Python floats: \<open>float('-inf')\<close>, \<open>float('inf')\<close>, and the finite
  values \<open>float(game_val)\<close> and \<open>heuristic_game_value(state)\<close>. Finite floats are read
  as the reals they denote; the comparisons of the search are the order of these values.
\<close>

datatype pyfloat = NegInf | Fin real | PosInf

instantiation pyfloat :: linorder
begin

fun less_eq_pyfloat :: "pyfloat \<Rightarrow> pyfloat \<Rightarrow> bool" where
  "less_eq_pyfloat NegInf y = True"
| "less_eq_pyfloat (Fin a) NegInf = False"
| "less_eq_pyfloat (Fin a) (Fin b) = (a \<le> b)"
| "less_eq_pyfloat (Fin a) PosInf = True"
| "less_eq_pyfloat PosInf NegInf = False"
| "less_eq_pyfloat PosInf (Fin b) = False"
| "less_eq_pyfloat PosInf PosInf = True"

definition less_pyfloat :: "pyfloat \<Rightarrow> pyfloat \<Rightarrow> bool" where
  "less_pyfloat x y \<longleftrightarrow> x \<le> y \<and> \<not> y \<le> x"

instance
proof
  fix x y z :: pyfloat
  show "(x < y) = (x \<le> y \<and> \<not> y \<le> x)" by (simp add: less_pyfloat_def)
  show "x \<le> x" by (cases x) simp_all
  show "x \<le> y \<Longrightarrow> y \<le> z \<Longrightarrow> x \<le> z" by (cases x; cases y; cases z) simp_all
  show "x \<le> y \<Longrightarrow> y \<le> x \<Longrightarrow> x = y" by (cases x; cases y) simp_all
  show "x \<le> y \<or> y \<le> x" by (cases x; cases y) auto
qed

end

text \<open>
  The loop of a maximizing node. \<open>ev successor alpha beta\<close> is the value component of the
  recursive call on a successor; \<open>best_state\<close> starts as \<open>None\<close>.
\<close>

fun max_loop ::
  "(board \<Rightarrow> pyfloat \<Rightarrow> pyfloat \<Rightarrow> pyfloat) \<Rightarrow> board list \<Rightarrow> pyfloat \<Rightarrow> board option
     \<Rightarrow> pyfloat \<Rightarrow> pyfloat \<Rightarrow> pyfloat \<times> board option" where
  "max_loop ev [] best_value best_state alpha beta = (best_value, best_state)"
| "max_loop ev (successor # rest) best_value best_state alpha beta =
     (let v = ev successor alpha beta;
          best_value' = (if v > best_value then v else best_value);
          best_state' = (if v > best_value then Some successor else best_state);
          alpha' = max alpha best_value'
      in if alpha' \<ge> beta then (best_value', best_state')
         else max_loop ev rest best_value' best_state' alpha' beta)"

text \<open>The loop of a minimizing node.\<close>

fun min_loop ::
  "(board \<Rightarrow> pyfloat \<Rightarrow> pyfloat \<Rightarrow> pyfloat) \<Rightarrow> board list \<Rightarrow> pyfloat \<Rightarrow> board option
     \<Rightarrow> pyfloat \<Rightarrow> pyfloat \<Rightarrow> pyfloat \<times> board option" where
  "min_loop ev [] best_value best_state alpha beta = (best_value, best_state)"
| "min_loop ev (successor # rest) best_value best_state alpha beta =
     (let v = ev successor alpha beta;
          best_value' = (if v < best_value then v else best_value);
          best_state' = (if v < best_value then Some successor else best_state);
          beta' = min beta best_value'
      in if alpha \<ge> beta' then (best_value', best_state')
         else min_loop ev rest best_value' best_state' alpha beta')"

text \<open>
  \<open>minimax\<close>. The attributes \<open>my_piece\<close> and \<open>max_depth\<close> are arguments. The search uses
  only the result of \<open>heuristic_game_value\<close>, a float computation on the state, so the
  heuristic is the argument \<open>h\<close>: what is proved of \<open>minimax\<close> holds for every heuristic.
\<close>

function minimax ::
  "char \<Rightarrow> int \<Rightarrow> (board \<Rightarrow> real) \<Rightarrow> board \<Rightarrow> int \<Rightarrow> pyfloat \<Rightarrow> pyfloat
     \<Rightarrow> pyfloat \<times> board option" where
  "minimax my_piece max_depth h state depth alpha beta =
     (let game_val = game_value my_piece state in
      if game_val \<noteq> 0 then (Fin (real_of_int game_val), Some state)
      else if depth \<ge> max_depth then (Fin (h state), Some state)
      else if depth mod 2 = 0 then
        (let successors = succ state my_piece in
         if successors = [] then (Fin (h state), Some state)
         else max_loop (\<lambda>s a b. fst (minimax my_piece max_depth h s (depth + 1) a b))
                successors NegInf None alpha beta)
      else
        (let successors = succ state (opponent_piece my_piece) in
         if successors = [] then (Fin (h state), Some state)
         else min_loop (\<lambda>s a b. fst (minimax my_piece max_depth h s (depth + 1) a b))
                successors PosInf None alpha beta))"
  by pat_completeness auto
termination
  by (relation "measure (\<lambda>(my_piece, max_depth, h, state, depth, alpha, beta).
        nat (max_depth - depth))") auto

declare minimax.simps [simp del]

text \<open>
  The exhaustive depth-limited minimax of the specification: the same nodes, the same
  order of successors and the same rule that a later successor replaces the best one only
  with a strictly better value, without alpha, beta and the cut-offs.
\<close>

fun plain_max_loop ::
  "(board \<Rightarrow> pyfloat) \<Rightarrow> board list \<Rightarrow> pyfloat \<Rightarrow> board option \<Rightarrow> pyfloat \<times> board option" where
  "plain_max_loop ev [] best_value best_state = (best_value, best_state)"
| "plain_max_loop ev (successor # rest) best_value best_state =
     (let v = ev successor
      in plain_max_loop ev rest (if v > best_value then v else best_value)
           (if v > best_value then Some successor else best_state))"

fun plain_min_loop ::
  "(board \<Rightarrow> pyfloat) \<Rightarrow> board list \<Rightarrow> pyfloat \<Rightarrow> board option \<Rightarrow> pyfloat \<times> board option" where
  "plain_min_loop ev [] best_value best_state = (best_value, best_state)"
| "plain_min_loop ev (successor # rest) best_value best_state =
     (let v = ev successor
      in plain_min_loop ev rest (if v < best_value then v else best_value)
           (if v < best_value then Some successor else best_state))"

function minimax_plain ::
  "char \<Rightarrow> int \<Rightarrow> (board \<Rightarrow> real) \<Rightarrow> board \<Rightarrow> int \<Rightarrow> pyfloat \<times> board option" where
  "minimax_plain my_piece max_depth h state depth =
     (let game_val = game_value my_piece state in
      if game_val \<noteq> 0 then (Fin (real_of_int game_val), Some state)
      else if depth \<ge> max_depth then (Fin (h state), Some state)
      else if depth mod 2 = 0 then
        (let successors = succ state my_piece in
         if successors = [] then (Fin (h state), Some state)
         else plain_max_loop (\<lambda>s. fst (minimax_plain my_piece max_depth h s (depth + 1)))
                successors NegInf None)
      else
        (let successors = succ state (opponent_piece my_piece) in
         if successors = [] then (Fin (h state), Some state)
         else plain_min_loop (\<lambda>s. fst (minimax_plain my_piece max_depth h s (depth + 1)))
                successors PosInf None))"
  by pat_completeness auto
termination
  by (relation "measure (\<lambda>(my_piece, max_depth, h, state, depth). nat (max_depth - depth))") auto

declare minimax_plain.simps [simp del]

text \<open>
  \<open>make_move\<close>: the depth limit is installed, the search is run from depth 0 with the
  full window, and the chosen state is translated into a move. Indexing \<open>best_state\<close>
  when it is \<open>None\<close> raises TypeError.
\<close>

definition make_move :: "char \<Rightarrow> (board \<Rightarrow> real) \<Rightarrow> board \<Rightarrow> py_error + (nat \<times> nat) list" where
  "make_move my_piece h state =
     (case snd (minimax my_piece (search_depth state) h state 0 NegInf PosInf) of
        None \<Rightarrow> Inl TypeError
      | Some best_state \<Rightarrow> Inr (translate my_piece state best_state))"

text \<open>
  The relation of a pruned value \<open>r\<close>, searched with the window \<open>(a, b)\<close>, to the exact
  minimax value \<open>v\<close>: at or below the window \<open>r\<close> is an upper bound of \<open>v\<close>, at or above
  it a lower bound, and inside it \<open>r\<close> is exact.
\<close>

definition window_sound :: "pyfloat \<Rightarrow> pyfloat \<Rightarrow> pyfloat \<Rightarrow> pyfloat \<Rightarrow> bool" where
  "window_sound r v a b \<longleftrightarrow> (r \<le> a \<longrightarrow> v \<le> r) \<and> (b \<le> r \<longrightarrow> r \<le> v) \<and> (a < r \<and> r < b \<longrightarrow> r = v)"

text \<open>A stand-in heuristic for concrete runs of the search: the number of own pieces in row 1.\<close>

definition row1_count :: "char \<Rightarrow> board \<Rightarrow> real" where
  "row1_count my_piece state = real (count_list (state ! 1) my_piece)"

section \<open>The store: succ on mutable lists\<close>

text \<open>
  For the statements about mutation and sharing, the lists are objects in a store. A state is
  the address of an outer list object, which holds the addresses of its row objects; a row
  object holds the cells (strings are immutable values). An address is an index into the
  store, and a new object is appended at the first free address.
\<close>

datatype obj = Row "char list" | Grid "nat list"

type_synonym store = "obj list"

definition grid_rows :: "store \<Rightarrow> nat \<Rightarrow> nat list" where
  "grid_rows h g = (if g < length h then (case h ! g of Grid rs \<Rightarrow> rs | Row cs \<Rightarrow> []) else [])"

definition row_of :: "store \<Rightarrow> nat \<Rightarrow> char list" where
  "row_of h r = (if r < length h then (case h ! r of Row cs \<Rightarrow> cs | Grid rs \<Rightarrow> []) else [])"

text \<open>The board a state address denotes in a store.\<close>

definition board_of :: "store \<Rightarrow> nat \<Rightarrow> board" where
  "board_of h g = map (row_of h) (grid_rows h g)"

text \<open>\<open>state[i][j]\<close>, read in the current store.\<close>

definition read_cell :: "store \<Rightarrow> nat \<Rightarrow> nat \<Rightarrow> nat \<Rightarrow> char" where
  "read_cell h g i j = board_of h g ! i ! j"

text \<open>
  \<open>state[i][j] = v\<close>: the row object at \<open>state[i]\<close> is updated in place. Outside the
  lists Python raises IndexError and the store stays as it is.
\<close>

definition write_cell_h :: "store \<Rightarrow> nat \<Rightarrow> nat \<Rightarrow> nat \<Rightarrow> char \<Rightarrow> store" where
  "write_cell_h h g i j v =
     (let rs = grid_rows h g
      in if i < length rs \<and> rs ! i < length h \<and> j < length (row_of h (rs ! i))
         then h[rs ! i := Row ((row_of h (rs ! i))[j := v])]
         else h)"

text \<open>
  \<open>copy.deepcopy(state)\<close>: a new outer list is created, then each row is copied into a
  new row object unless the memo already holds a copy of that very object, in which case
  the copy is shared again.
\<close>

fun copy_rows :: "store \<Rightarrow> (nat \<times> nat) list \<Rightarrow> nat list \<Rightarrow> store \<times> nat list" where
  "copy_rows h memo [] = (h, [])"
| "copy_rows h memo (r # rs) =
     (case map_of memo r of
        Some r' \<Rightarrow> (let (h', rs') = copy_rows h memo rs in (h', r' # rs'))
      | None \<Rightarrow>
          (let r' = length h;
               (h', rs') = copy_rows (h @ [Row (row_of h r)]) ((r, r') # memo) rs
           in (h', r' # rs')))"

definition deepcopy :: "store \<Rightarrow> nat \<Rightarrow> store \<times> nat" where
  "deepcopy h g =
     (let c = length h;
          (h', rs') = copy_rows (h @ [Grid []]) [] (grid_rows h g)
      in (h'[c := Grid rs'], c))"

text \<open>
  A candidate of the successor loops is the cell tested for emptiness together with the
  writes made on the copy. The loop ranges and \<open>piece_locs\<close> are computed before the
  loops run: \<open>succ\<close> changes the length of no list but \<open>successor_states\<close>.
\<close>

type_synonym candidate = "(nat \<times> nat) \<times> (nat \<times> nat \<times> char) list"

definition drop_candidates :: "board \<Rightarrow> char \<Rightarrow> candidate list" where
  "drop_candidates state my_piece =
     [((row_idx, col_idx), [(row_idx, col_idx, my_piece)]).
        row_idx \<leftarrow> [0..<length state], col_idx \<leftarrow> [0..<length (state ! 0)]]"

definition move_candidates :: "board \<Rightarrow> char \<Rightarrow> candidate list" where
  "move_candidates state my_piece =
     concat (map (\<lambda>(x, y).
       concat (map (\<lambda>(dx, dy).
         (let new_x = int x + dx; new_y = int y + dy
          in if 0 \<le> new_x \<and> new_x < int (length state) \<and>
                0 \<le> new_y \<and> new_y < int (length (state ! 0))
             then [((nat new_x, nat new_y),
                    [(nat new_x, nat new_y, my_piece), (x, y, CHR '' '')])]
             else [])) directions)) (piece_locs state my_piece))"

definition candidates :: "board \<Rightarrow> char \<Rightarrow> candidate list" where
  "candidates state my_piece =
     (if total_pieces state < 8 then drop_candidates state my_piece
      else move_candidates state my_piece)"

text \<open>
  The body shared by the two loops of \<open>succ\<close>: when the tested cell of the state is
  empty in the current store, the state is deep-copied, the writes are made on the copy
  and the copy is appended to \<open>successor_states\<close>.
\<close>

fun emit :: "store \<Rightarrow> nat \<Rightarrow> candidate list \<Rightarrow> store \<times> nat list" where
  "emit h g [] = (h, [])"
| "emit h g (((i, j), ws) # rest) =
     (if read_cell h g i j = CHR '' '' then
        (let (h1, c) = deepcopy h g;
             h2 = foldl (\<lambda>h' (a, b, v). write_cell_h h' c a b v) h1 ws;
             (h3, cs) = emit h2 g rest
         in (h3, c # cs))
      else emit h g rest)"

definition succ_store :: "store \<Rightarrow> nat \<Rightarrow> char \<Rightarrow> store \<times> nat list" where
  "succ_store h g my_piece = emit h g (candidates (board_of h g) my_piece)"

text \<open>The same loop on boards as values.\<close>

fun emit_boards :: "board \<Rightarrow> candidate list \<Rightarrow> board list" where
  "emit_boards state [] = []"
| "emit_boards state (((i, j), ws) # rest) =
     (if state ! i ! j = CHR '' ''
      then foldl (\<lambda>b (a, c, v). set_cell b a c v) state ws # emit_boards state rest
      else emit_boards state rest)"

text \<open>
  A state address is valid when it holds an outer list of distinct row objects. Every
  object of \<open>h\<close> keeps its content in \<open>h'\<close> when \<open>frame h h'\<close>, and the objects at the
  addresses in \<open>A\<close> do when \<open>agree_on A h h'\<close>; \<open>reach\<close> are the objects of a state.
\<close>

definition valid_grid :: "store \<Rightarrow> nat \<Rightarrow> bool" where
  "valid_grid h g \<longleftrightarrow>
     g < length h \<and> (\<exists>rs. h ! g = Grid rs \<and> distinct rs \<and>
        list_all (\<lambda>r. r < length h \<and> (\<exists>cs. h ! r = Row cs)) rs)"

definition frame :: "store \<Rightarrow> store \<Rightarrow> bool" where
  "frame h h' \<longleftrightarrow> length h \<le> length h' \<and> take (length h) h' = h"

definition agree_on :: "nat set \<Rightarrow> store \<Rightarrow> store \<Rightarrow> bool" where
  "agree_on A h h' \<longleftrightarrow> length h \<le> length h' \<and> (\<forall>a\<in>A. a < length h \<longrightarrow> h' ! a = h ! a)"

definition reach :: "store \<Rightarrow> nat \<Rightarrow> nat set" where
  "reach h g = insert g (set (grid_rows h g))"

text \<open>The store holding \<open>corner_board\<close> at address 5, its rows at addresses 0 to 4.\<close>

definition corner_store :: store where
  "corner_store = map Row corner_board @ [Grid [0, 1, 2, 3, 4]]"

section \<open>Properties of game_value\<close>

lemma scan_windows_cases:
  "scan_windows mp opp ws = None \<or> scan_windows mp opp ws = Some 1 \<or> scan_windows mp opp ws = Some (- 1)"
  by (induction ws) auto

lemma scan_windows_win:
  "scan_windows mp opp ws = Some 1 \<Longrightarrow> \<exists>w\<in>set ws. all_eq w mp"
  by (induction ws) (auto split: if_splits)

lemma scan_windows_loss:
  "scan_windows mp opp ws = Some (- 1) \<Longrightarrow> \<exists>w\<in>set ws. all_eq w opp"
  by (induction ws) (auto split: if_splits)

lemma scan_squares_cases:
  "scan_squares mp opp s ps = None \<or> scan_squares mp opp s ps = Some 1 \<or> scan_squares mp opp s ps = Some (- 1)"
  by (induction mp opp s ps rule: scan_squares.induct) auto

lemma scan_squares_win:
  "scan_squares mp opp s ps = Some 1 \<Longrightarrow>
   \<exists>(i, j)\<in>set ps. s ! i ! j = mp \<and> s ! i ! (j + 1) = mp \<and> s ! (i + 1) ! j = mp \<and> s ! (i + 1) ! (j + 1) = mp"
  by (induction mp opp s ps rule: scan_squares.induct) (auto split: if_splits)

lemma scan_squares_loss:
  "scan_squares mp opp s ps = Some (- 1) \<Longrightarrow>
   \<exists>(i, j)\<in>set ps. s ! i ! j = opp \<and> s ! i ! (j + 1) = opp \<and> s ! (i + 1) ! j = opp \<and> s ! (i + 1) ! (j + 1) = opp"
  by (induction mp opp s ps rule: scan_squares.induct) (auto split: if_splits)

lemma all_eq_window:
  "all_eq (map f [0..<4]) p \<longleftrightarrow> (\<forall>k<4. f k = p)"
  by (auto simp: all_eq_def list_all_iff)

lemma row_windows_line:
  assumes "length s = 5" "w \<in> set (row_windows s)" "all_eq w p"
  shows "four_in_line s p"
proof -
  from assms(2) obtain row j where r: "row \<in> set s" and j: "j < 2" and w: "w = map (\<lambda>k. row ! (j + k)) [0..<4]"
    by (auto simp: row_windows_def)
  from r obtain i where "i < length s" "row = s ! i" by (auto simp: in_set_conv_nth)
  with assms(1,3) j w have "i < 5 \<and> j < 2 \<and> (\<forall>k<4. s ! i ! (j + k) = p)"
    by (simp add: all_eq_window)
  then show ?thesis unfolding four_in_line_def by blast
qed

lemma col_windows_line:
  assumes "w \<in> set (col_windows s)" "all_eq w p"
  shows "four_in_line s p"
proof -
  from assms(1) obtain i j where "i < 2" "j < 5" "w = map (\<lambda>k. s ! (i + k) ! j) [0..<4]"
    by (auto simp: col_windows_def)
  with assms(2) have "i < 2 \<and> j < 5 \<and> (\<forall>k<4. s ! (i + k) ! j = p)"
    by (simp add: all_eq_window)
  then show ?thesis unfolding four_in_line_def by blast
qed

lemma diag_dr_windows_line:
  assumes "w \<in> set (diag_dr_windows s)" "all_eq w p"
  shows "four_in_line s p"
proof -
  from assms(1) obtain i j where "i < 2" "j < 2" "w = map (\<lambda>k. s ! (i + k) ! (j + k)) [0..<4]"
    by (auto simp: diag_dr_windows_def)
  with assms(2) have "i < 2 \<and> j < 2 \<and> (\<forall>k<4. s ! (i + k) ! (j + k) = p)"
    by (simp add: all_eq_window)
  then show ?thesis unfolding four_in_line_def by blast
qed

lemma diag_dl_windows_line:
  assumes "w \<in> set (diag_dl_windows s)" "all_eq w p"
  shows "four_in_line s p"
proof -
  from assms(1) obtain i where i: "i < 2" and
    "w = map (\<lambda>k. s ! (i + k) ! (4 - k)) [0..<4] \<or> w = map (\<lambda>k. s ! (i + k) ! (3 - k)) [0..<4]"
    by (auto simp: diag_dl_windows_def simp del: map_eq_conv)
  then obtain j where "j \<in> {3, 4}" "w = map (\<lambda>k. s ! (i + k) ! (j - k)) [0..<4]"
    by blast
  note this i
  with assms(2) have "i < 2 \<and> j \<in> {3, 4} \<and> (\<forall>k<4. s ! (i + k) ! (j - k) = p)"
    by (simp add: all_eq_window)
  then show ?thesis unfolding four_in_line_def by blast
qed

lemma square_anchors_set: "set square_anchors = {(i, j). i < 4 \<and> j < 4}"
  by (auto simp: square_anchors_def)

lemma squares_block:
  assumes "\<exists>(i, j)\<in>set square_anchors. s ! i ! j = p \<and> s ! i ! (j + 1) = p \<and> s ! (i + 1) ! j = p \<and> s ! (i + 1) ! (j + 1) = p"
  shows "block_2x2 s p"
  using assms unfolding block_2x2_def square_anchors_set by blast

lemma game_value_range: "game_value mp s \<in> {- 1, 0, 1}"
  using scan_windows_cases[of mp "opponent_piece mp" "row_windows s"]
        scan_windows_cases[of mp "opponent_piece mp" "col_windows s"]
        scan_windows_cases[of mp "opponent_piece mp" "diag_dr_windows s"]
        scan_windows_cases[of mp "opponent_piece mp" "diag_dl_windows s"]
        scan_squares_cases[of mp "opponent_piece mp" s square_anchors]
  by (auto simp: game_value_def Let_def)

lemma game_value_scans:
  assumes "game_value mp s = v" "v \<noteq> 0"
  shows "scan_windows mp (opponent_piece mp) (row_windows s) = Some v \<or>
         scan_windows mp (opponent_piece mp) (col_windows s) = Some v \<or>
         scan_windows mp (opponent_piece mp) (diag_dr_windows s) = Some v \<or>
         scan_windows mp (opponent_piece mp) (diag_dl_windows s) = Some v \<or>
         scan_squares mp (opponent_piece mp) s square_anchors = Some v"
  using assms unfolding game_value_def Let_def
  by (auto split: option.splits)

lemma game_value_win:
  assumes len: "length s = 5" and gv: "game_value mp s = 1"
  shows "winning_shape s mp"
proof -
  let ?o = "opponent_piece mp"
  from game_value_scans[OF gv] consider
      "scan_windows mp ?o (row_windows s) = Some 1"
    | "scan_windows mp ?o (col_windows s) = Some 1"
    | "scan_windows mp ?o (diag_dr_windows s) = Some 1"
    | "scan_windows mp ?o (diag_dl_windows s) = Some 1"
    | "scan_squares mp ?o s square_anchors = Some 1"
    by auto
  then show ?thesis
  proof cases
    case 1 then show ?thesis
      using scan_windows_win row_windows_line[OF len] unfolding winning_shape_def by blast
  next
    case 2 then show ?thesis
      using scan_windows_win col_windows_line unfolding winning_shape_def by blast
  next
    case 3 then show ?thesis
      using scan_windows_win diag_dr_windows_line unfolding winning_shape_def by blast
  next
    case 4 then show ?thesis
      using scan_windows_win diag_dl_windows_line unfolding winning_shape_def by blast
  next
    case 5 then show ?thesis
      using scan_squares_win squares_block unfolding winning_shape_def by blast
  qed
qed

lemma game_value_loss:
  assumes len: "length s = 5" and gv: "game_value mp s = - 1"
  shows "winning_shape s (opponent_piece mp)"
proof -
  let ?o = "opponent_piece mp"
  from game_value_scans[OF gv] consider
      "scan_windows mp ?o (row_windows s) = Some (- 1)"
    | "scan_windows mp ?o (col_windows s) = Some (- 1)"
    | "scan_windows mp ?o (diag_dr_windows s) = Some (- 1)"
    | "scan_windows mp ?o (diag_dl_windows s) = Some (- 1)"
    | "scan_squares mp ?o s square_anchors = Some (- 1)"
    by auto
  then show ?thesis
  proof cases
    case 1 then show ?thesis
      using scan_windows_loss row_windows_line[OF len] unfolding winning_shape_def by blast
  next
    case 2 then show ?thesis
      using scan_windows_loss col_windows_line unfolding winning_shape_def by blast
  next
    case 3 then show ?thesis
      using scan_windows_loss diag_dr_windows_line unfolding winning_shape_def by blast
  next
    case 4 then show ?thesis
      using scan_windows_loss diag_dl_windows_line unfolding winning_shape_def by blast
  next
    case 5 then show ?thesis
      using scan_squares_loss squares_block unfolding winning_shape_def by blast
  qed
qed

lemma row0_win:
  "state \<noteq> [] \<Longrightarrow> state ! 0 = [mp, mp, mp, mp, x] \<Longrightarrow> game_value mp state = 1"
  by (cases state) (simp_all add: game_value_def row_windows_def all_eq_def upt_rec)

lemma block00_loss:
  assumes "my_piece \<in> set pieces"
  shows "game_value my_piece (block00_board (opponent_piece my_piece)) = - 1"
proof -
  have b: "game_value (CHR ''b'') (block00_board (opponent_piece (CHR ''b''))) = - 1"
    by code_simp
  have r: "game_value (CHR ''r'') (block00_board (opponent_piece (CHR ''r''))) = - 1"
    by code_simp
  from assms have "my_piece = CHR ''b'' \<or> my_piece = CHR ''r''"
    by (simp add: pieces_def)
  with b r show ?thesis by blast
qed

text \<open>
  C2. On every well-formed 5x5 state \<open>game_value\<close> returns -1, 0 or +1; it returns +1 only
  if the own piece fills a window of four cells in a row, column or diagonal, or a 2x2
  block, and -1 only if the opponent's piece does. A state whose row 0 starts with four own
  pieces has value +1, and a 2x2 block of the opponent at anchor (0,0) on an otherwise
  empty board has value -1.
\<close>

theorem game_value_sound:
  assumes "wf_state state"
  shows "game_value my_piece state \<in> {- 1, 0, 1} \<and>
         (game_value my_piece state = 1 \<longrightarrow> winning_shape state my_piece) \<and>
         (game_value my_piece state = - 1 \<longrightarrow> winning_shape state (opponent_piece my_piece)) \<and>
         (\<forall>x. state ! 0 = [my_piece, my_piece, my_piece, my_piece, x] \<longrightarrow>
              game_value my_piece state = 1) \<and>
         (my_piece \<in> set pieces \<longrightarrow>
              game_value my_piece (block00_board (opponent_piece my_piece)) = - 1)"
proof -
  from assms have len: "length state = 5" by (simp add: wf_state_def)
  then have ne: "state \<noteq> []" by auto
  show ?thesis
    using game_value_range[of my_piece state] game_value_win[OF len, of my_piece]
      game_value_loss[OF len, of my_piece] row0_win[OF ne, of my_piece] block00_loss[of my_piece]
    by blast
qed

theorem game_value_sound_witness:
  "wf_state (row0_board (CHR ''b'')) \<and>
   game_value (CHR ''b'') (row0_board (CHR ''b'')) = 1 \<and>
   winning_shape (row0_board (CHR ''b'')) (CHR ''b'') \<and>
   wf_state (block00_board (CHR ''r'')) \<and>
   CHR ''b'' \<in> set pieces \<and>
   game_value (CHR ''b'') (block00_board (CHR ''r'')) = - 1 \<and>
   winning_shape (block00_board (CHR ''r'')) (CHR ''r'')"
proof -
  have w1: "wf_state (row0_board (CHR ''b''))" by code_simp
  have w2: "wf_state (block00_board (CHR ''r''))" by code_simp
  have r0: "row0_board (CHR ''b'') ! 0 = [CHR ''b'', CHR ''b'', CHR ''b'', CHR ''b'', CHR '' '']"
    by (simp add: row0_board_def)
  have p: "CHR ''b'' \<in> set pieces" by (simp add: pieces_def)
  have o: "opponent_piece (CHR ''b'') = CHR ''r''" by (simp add: opponent_piece_def)
  from game_value_sound[OF w1, of "CHR ''b''"] r0
  have a: "game_value (CHR ''b'') (row0_board (CHR ''b'')) = 1 \<and>
           winning_shape (row0_board (CHR ''b'')) (CHR ''b'')"
    by blast
  from game_value_sound[OF w2, of "CHR ''b''"] p o
  have b: "game_value (CHR ''b'') (block00_board (CHR ''r'')) = - 1 \<and>
           winning_shape (block00_board (CHR ''r'')) (CHR ''r'')"
    by simp
  from w1 w2 p a b show ?thesis by blast
qed

lemma all_eq_read: "all_eq (read_cells s cs) p = filled s p cs"
  by (simp add: all_eq_def read_cells_def filled_def list_all_iff split_beta)

lemma scan_windows_find:
  "scan_windows mp opp (map (read_cells s) css) =
     verdict s mp (find (\<lambda>cs. filled s mp cs \<or> filled s opp cs) css)"
  by (induction css) (auto simp: all_eq_read verdict_def)

lemma row_windows_cells: "length s = 5 \<Longrightarrow> row_windows s = map (read_cells s) row_cells"
proof -
  assume "length s = 5"
  then have "s = map ((!) s) [0..<5]" by (metis map_nth)
  then have "row_windows s = concat (map (\<lambda>row. map (\<lambda>j. map (\<lambda>k. row ! (j + k)) [0..<4]) [0..<2]) (map ((!) s) [0..<5]))"
    unfolding row_windows_def by simp
  then show ?thesis
    by (simp add: row_cells_def read_cells_def map_concat o_def)
qed

lemma col_windows_cells: "col_windows s = map (read_cells s) col_cells"
  by (simp add: col_windows_def col_cells_def read_cells_def map_concat o_def)
lemma dr_windows_cells: "diag_dr_windows s = map (read_cells s) diag_dr_cells"
  by (simp add: diag_dr_windows_def diag_dr_cells_def read_cells_def map_concat o_def)
lemma dl_windows_cells: "diag_dl_windows s = map (read_cells s) diag_dl_cells"
  by (simp add: diag_dl_windows_def diag_dl_cells_def read_cells_def map_concat o_def)

lemma scan_squares_find:
  "mp \<noteq> opp \<Longrightarrow> scan_squares mp opp s ps =
     verdict s mp (find (\<lambda>cs. filled s mp cs \<or> filled s opp cs)
        (map (\<lambda>(i, j). [(i, j), (i, j + 1), (i + 1, j), (i + 1, j + 1)]) ps))"
  by (induction mp opp s ps rule: scan_squares.induct) (auto simp: verdict_def filled_def)

lemma find_append_case:
  "find P (xs @ ys) = (case find P xs of None \<Rightarrow> find P ys | Some x \<Rightarrow> Some x)"
  by (induction xs) auto

lemma opponent_piece_neq: "my_piece \<noteq> opponent_piece my_piece"
  by (simp add: opponent_piece_def)

lemma game_value_first_completed:
  assumes "length s = 5"
  shows "game_value mp s =
     (case first_completed mp s of None \<Rightarrow> 0
      | Some cs \<Rightarrow> if filled s mp cs then 1 else - 1)"
  unfolding game_value_def Let_def first_completed_def scan_order_def
    row_windows_cells[OF assms] col_windows_cells dr_windows_cells dl_windows_cells
    scan_windows_find scan_squares_find[OF opponent_piece_neq]
    square_cells_def find_append_case verdict_def
  by (simp split: option.splits)

lemma filled_window: "filled s p (map f [0..<4]) \<longleftrightarrow> (\<forall>k<4. s ! fst (f k) ! snd (f k) = p)"
  by (auto simp: filled_def list_all_iff split_beta)

lemma winning_shape_scan_order:
  assumes "winning_shape s p"
  shows "\<exists>cs\<in>set scan_order. filled s p cs"
proof -
  from assms consider
      (r) i j where "i < 5" "j < 2" "\<forall>k<4. s ! i ! (j + k) = p"
    | (c) i j where "i < 2" "j < 5" "\<forall>k<4. s ! (i + k) ! j = p"
    | (dr) i j where "i < 2" "j < 2" "\<forall>k<4. s ! (i + k) ! (j + k) = p"
    | (dl) i j where "i < 2" "j \<in> {3, 4}" "\<forall>k<4. s ! (i + k) ! (j - k) = p"
    | (sq) i j where "i < 4" "j < 4" "s ! i ! j = p" "s ! i ! (j + 1) = p"
          "s ! (i + 1) ! j = p" "s ! (i + 1) ! (j + 1) = p"
    unfolding winning_shape_def four_in_line_def block_2x2_def by blast
  then show ?thesis
  proof cases
    case r
    then have "map (\<lambda>k. (i, j + k)) [0..<4] \<in> set row_cells" "filled s p (map (\<lambda>k. (i, j + k)) [0..<4])"
      by (auto simp: row_cells_def filled_window simp del: map_eq_conv intro!: bexI[where x=i])
    then show ?thesis unfolding scan_order_def by auto
  next
    case c
    then have "map (\<lambda>k. (i + k, j)) [0..<4] \<in> set col_cells" "filled s p (map (\<lambda>k. (i + k, j)) [0..<4])"
      by (auto simp: col_cells_def filled_window simp del: map_eq_conv intro!: bexI[where x=i])
    then show ?thesis unfolding scan_order_def by auto
  next
    case dr
    then have "map (\<lambda>k. (i + k, j + k)) [0..<4] \<in> set diag_dr_cells" "filled s p (map (\<lambda>k. (i + k, j + k)) [0..<4])"
      by (auto simp: diag_dr_cells_def filled_window simp del: map_eq_conv intro!: bexI[where x=i])
    then show ?thesis unfolding scan_order_def by auto
  next
    case dl
    then have "map (\<lambda>k. (i + k, j - k)) [0..<4] \<in> set diag_dl_cells" "filled s p (map (\<lambda>k. (i + k, j - k)) [0..<4])"
      by (auto simp: diag_dl_cells_def filled_window simp del: map_eq_conv intro!: bexI[where x=i])
    then show ?thesis unfolding scan_order_def by auto
  next
    case sq
    then have "(i, j) \<in> set square_anchors" by (simp add: square_anchors_set)
    then have "[(i, j), (i, j + 1), (i + 1, j), (i + 1, j + 1)] \<in> set square_cells"
      unfolding square_cells_def set_map by (rule image_eqI[rotated]) simp
    moreover from sq have "filled s p [(i, j), (i, j + 1), (i + 1, j), (i + 1, j + 1)]"
      by (simp add: filled_def)
    ultimately show ?thesis unfolding scan_order_def by auto
  qed
qed

text \<open>
  C3 as stated fails: with the opponent's four in row 0 and self's four in row 1 the scan
  meets the opponent's window first and returns -1.
\<close>

theorem self_precedence_counterexample:
  "wf_state (both_win_board (CHR ''b'')) \<and>
   winning_shape (both_win_board (CHR ''b'')) (CHR ''b'') \<and>
   winning_shape (both_win_board (CHR ''b'')) (opponent_piece (CHR ''b'')) \<and>
   game_value (CHR ''b'') (both_win_board (CHR ''b'')) = - 1"
  by code_simp

text \<open>
  C3, amended. When both sides complete a winning shape, \<open>game_value\<close> returns the verdict
  of the first completed window in scan order (row windows top to bottom, column windows,
  down-right diagonals, down-left diagonals, 2x2 blocks): +1 if that window is filled with
  the own piece and -1 if it is filled with the opponent's. The own piece is tested before
  the opponent's only within one window.
\<close>

theorem both_complete_first_window:
  assumes "wf_state state"
    and "winning_shape state my_piece"
    and "winning_shape state (opponent_piece my_piece)"
  shows "\<exists>cells. first_completed my_piece state = Some cells \<and>
           game_value my_piece state = (if filled state my_piece cells then 1 else - 1)"
proof -
  from assms(1) have len: "length state = 5" by (simp add: wf_state_def)
  from winning_shape_scan_order[OF assms(2)]
  obtain cells where "first_completed my_piece state = Some cells"
    unfolding first_completed_def
    by (cases "find (\<lambda>cells. filled state my_piece cells \<or>
                 filled state (opponent_piece my_piece) cells) scan_order")
       (auto simp: find_None_iff)
  then show ?thesis using game_value_first_completed[OF len, of my_piece] by simp
qed

theorem both_complete_first_window_witness:
  "wf_state (both_win_board (CHR ''b'')) \<and>
   winning_shape (both_win_board (CHR ''b'')) (CHR ''b'') \<and>
   winning_shape (both_win_board (CHR ''b'')) (opponent_piece (CHR ''b'')) \<and>
   first_completed (CHR ''b'') (both_win_board (CHR ''b'')) = Some [(0, 0), (0, 1), (0, 2), (0, 3)] \<and>
   game_value (CHR ''b'') (both_win_board (CHR ''b'')) = - 1"
proof -
  let ?B = "both_win_board (CHR ''b'')"
  have w: "wf_state ?B" by code_simp
  have a: "winning_shape ?B (CHR ''b'')" by code_simp
  have b: "winning_shape ?B (opponent_piece (CHR ''b''))" by code_simp
  have f: "first_completed (CHR ''b'') ?B = Some [(0, 0), (0, 1), (0, 2), (0, 3)]" by code_simp
  have nf: "\<not> filled ?B (CHR ''b'') [(0, 0), (0, 1), (0, 2), (0, 3)]" by code_simp
  from both_complete_first_window[OF w a b] f nf
  have "game_value (CHR ''b'') ?B = - 1" by auto
  with w a b f show ?thesis by blast
qed

section \<open>Properties of evaluate_line\<close>

lemma occurrences_count: "occurrences window c = count_list window c"
  by (induction window) (auto simp: occurrences_def)

lemma count_list_pos: "count_list xs c > 0 \<longleftrightarrow> c \<in> set xs"
  by (induction xs) auto

text \<open>
  C7. \<open>evaluate_line\<close> computes the specification's piecewise score on every window, and
  a window of three own pieces and one blank scores exactly 0.75.
\<close>

theorem evaluate_line_piecewise:
  "evaluate_line window subject other = line_score_spec window subject other \<and>
   evaluate_line [CHR ''b'', CHR ''b'', CHR ''b'', CHR '' ''] (CHR ''b'') (CHR ''r'') = 0.75 \<and>
   evaluate_line [CHR ''r'', CHR ''r'', CHR ''r'', CHR '' ''] (CHR ''r'') (CHR ''b'') = 0.75"
proof -
  have "evaluate_line window subject other = line_score_spec window subject other"
    unfolding evaluate_line_def line_score_spec_def occurrences_count Let_def
    by (simp add: count_list_pos conj_commute)
  moreover have
    "evaluate_line [CHR ''b'', CHR ''b'', CHR ''b'', CHR '' ''] (CHR ''b'') (CHR ''r'') = 0.75"
    by (simp add: evaluate_line_def)
  moreover have
    "evaluate_line [CHR ''r'', CHR ''r'', CHR ''r'', CHR '' ''] (CHR ''r'') (CHR ''b'') = 0.75"
    by (simp add: evaluate_line_def)
  ultimately show ?thesis by blast
qed

lemma three_counts_le_length:
  "a \<noteq> b \<Longrightarrow> a \<noteq> c \<Longrightarrow> b \<noteq> c \<Longrightarrow>
   count_list xs a + count_list xs b + count_list xs c \<le> length xs"
  by (induction xs) auto

text \<open>
  C10. In a window of four cells that holds both identities, three cells of the other
  identity together with one blank cannot occur, so the mixed branch of \<open>evaluate_line\<close>
  never adds the 0.75 bonus.
\<close>

theorem mixed_bonus_unreachable:
  assumes "length window = 4"
    and "subject \<noteq> other" and "subject \<noteq> CHR '' ''" and "other \<noteq> CHR '' ''"
    and "count_list window subject > 0" and "count_list window other > 0"
  shows "\<not> (count_list window other = 3 \<and> count_list window (CHR '' '') = 1) \<and>
         evaluate_line window subject other =
           0.15 * real (count_list window subject) - 0.25 * real (count_list window other)
             + 0.05 * real (count_list window (CHR '' ''))"
proof -
  from three_counts_le_length[OF assms(2,3,4), of window] assms(1)
  have "count_list window subject + count_list window other
          + count_list window (CHR '' '') \<le> 4"
    by simp
  with assms(5) have no: "\<not> (count_list window other = 3 \<and> count_list window (CHR '' '') = 1)"
    by arith
  with assms(5,6) show ?thesis
    by (simp add: evaluate_line_def Let_def)
qed

theorem mixed_bonus_unreachable_witness:
  "length [CHR ''b'', CHR ''r'', CHR ''r'', CHR '' ''] = 4 \<and>
   count_list [CHR ''b'', CHR ''r'', CHR ''r'', CHR '' ''] (CHR ''b'') > 0 \<and>
   count_list [CHR ''b'', CHR ''r'', CHR ''r'', CHR '' ''] (CHR ''r'') > 0 \<and>
   evaluate_line [CHR ''b'', CHR ''r'', CHR ''r'', CHR '' ''] (CHR ''b'') (CHR ''r'') = - 0.3"
  using mixed_bonus_unreachable[of "[CHR ''b'', CHR ''r'', CHR ''r'', CHR '' '']" "CHR ''b''" "CHR ''r''"]
  by simp

section \<open>Properties of the depth choice\<close>

text \<open>
  C6. The depth limit \<open>make_move\<close> installs depends on the piece count only: in the drop
  phase (fewer than 8 pieces) it is 3 for at most 4 pieces, 4 for 5 or 6 pieces and 5 for
  7 pieces; with 8 or more pieces it is 5. The empty board gets depth 3.
\<close>

theorem search_depth_by_count:
  "(total_pieces state \<le> 4 \<longrightarrow> search_depth state = 3) \<and>
   (4 < total_pieces state \<and> total_pieces state \<le> 6 \<longrightarrow> search_depth state = 4) \<and>
   (total_pieces state = 7 \<longrightarrow> search_depth state = 5) \<and>
   (8 \<le> total_pieces state \<longrightarrow> search_depth state = 5) \<and>
   (total_pieces state = total_pieces state' \<longrightarrow> search_depth state = search_depth state') \<and>
   search_depth empty_board = 3"
proof -
  have "total_pieces empty_board = 0"
    by (simp add: total_pieces_def empty_board_def empty_row_def)
  then have "search_depth empty_board = 3"
    by (simp add: search_depth_def drop_phase_def)
  then show ?thesis
    by (auto simp: search_depth_def drop_phase_def)
qed

theorem search_depth_by_count_witness:
  "total_pieces empty_board \<le> 4 \<and> search_depth empty_board = 3 \<and>
   4 < total_pieces five_piece_board \<and> total_pieces five_piece_board \<le> 6 \<and>
   search_depth five_piece_board = 4 \<and>
   total_pieces seven_piece_board = 7 \<and> search_depth seven_piece_board = 5 \<and>
   8 \<le> total_pieces eight_piece_board \<and> search_depth eight_piece_board = 5 \<and>
   total_pieces (row0_board (CHR ''b'')) = total_pieces (row0_board (CHR ''r'')) \<and>
   search_depth (row0_board (CHR ''b'')) = search_depth (row0_board (CHR ''r''))"
proof -
  have t0: "total_pieces empty_board = 0"
    by (simp add: total_pieces_def empty_board_def empty_row_def)
  have t5: "total_pieces five_piece_board = 5"
    by (simp add: total_pieces_def five_piece_board_def empty_row_def)
  have t7: "total_pieces seven_piece_board = 7"
    by (simp add: total_pieces_def seven_piece_board_def empty_row_def)
  have t8: "total_pieces eight_piece_board = 8"
    by (simp add: total_pieces_def eight_piece_board_def empty_row_def)
  have tr: "total_pieces (row0_board (CHR ''b'')) = total_pieces (row0_board (CHR ''r''))"
    by (simp add: total_pieces_def row0_board_def empty_row_def)
  from search_depth_by_count[of empty_board] t0
  have d0: "search_depth empty_board = 3" by simp
  from search_depth_by_count[of five_piece_board] t5
  have d5: "search_depth five_piece_board = 4" by simp
  from search_depth_by_count[of seven_piece_board] t7
  have d7: "search_depth seven_piece_board = 5" by simp
  from search_depth_by_count[of eight_piece_board] t8
  have d8: "search_depth eight_piece_board = 5" by simp
  from search_depth_by_count[of "row0_board (CHR ''b'')" "row0_board (CHR ''r'')"] tr
  have dr: "search_depth (row0_board (CHR ''b'')) = search_depth (row0_board (CHR ''r''))"
    by blast
  from t0 t5 t7 t8 tr d0 d5 d7 d8 dr show ?thesis by simp
qed

section \<open>Properties of succ\<close>

lemma concat_if_product:
  "concat (map (\<lambda>i. concat (map (\<lambda>j. if P i j then [f i j] else []) ys)) xs) =
   map (\<lambda>(i, j). f i j) (filter (\<lambda>(i, j). P i j) (List.product xs ys))"
proof -
  have inner: "\<And>i. concat (map (\<lambda>j. if P i j then [f i j] else []) ys) =
      map (\<lambda>(i, j). f i j) (filter (\<lambda>(i, j). P i j) (map (Pair i) ys))"
    by (induction ys) auto
  show ?thesis by (induction xs) (auto simp: inner)
qed

lemma succ_drop_empty_cells:
  assumes "length s = 5" "length (s ! 0) = 5"
  shows "succ_drop s p = map (\<lambda>(i, j). set_cell s i j p) (empty_cells s)"
  unfolding succ_drop_def empty_cells_def all_cells_def assms
  by (rule concat_if_product)

lemma piece_locs_filter: "piece_locs s p = filter (\<lambda>(x, y). s ! x ! y = p) all_cells"
  unfolding piece_locs_def all_cells_def
  using concat_if_product[of "\<lambda>i j. s ! i ! j = p" Pair "[0..<5]" "[0..<5]"]
  by simp

lemma neighbours_all: "list_all (\<lambda>src. in_bounds_neighbours src = filter (\<lambda>dst. chebyshev src dst = 1) all_cells) all_cells"
  by code_simp

lemma concat_if_guard:
  "concat (map (\<lambda>d. if A d \<and> E (g d) then [R (g d)] else []) ds) =
   map R (filter E (map g (filter A ds)))"
  by (induction ds) auto

lemma neighbour_step:
  assumes "(x, y) \<in> set all_cells"
  shows "concat (map (\<lambda>(dx, dy).
         (let new_x = int x + dx; new_y = int y + dy
          in if 0 \<le> new_x \<and> new_x < int 5 \<and> 0 \<le> new_y \<and> new_y < int 5 \<and>
                s ! nat new_x ! nat new_y = CHR '' ''
             then [set_cell (set_cell s (nat new_x) (nat new_y) p) x y (CHR '' '')]
             else [])) directions) =
       map (relocate s p) (map (Pair (x, y))
         (filter (\<lambda>dst. chebyshev (x, y) dst = 1 \<and> s ! fst dst ! snd dst = CHR '' '') all_cells))"
proof -
  let ?g = "\<lambda>(dx, dy). (nat (int x + dx), nat (int y + dy))"
  let ?A = "\<lambda>(dx, dy). 0 \<le> int x + dx \<and> int x + dx < 5 \<and> 0 \<le> int y + dy \<and> int y + dy < 5"
  let ?E = "\<lambda>dst. s ! fst dst ! snd dst = CHR '' ''"
  let ?R = "\<lambda>dst. relocate s p ((x, y), dst)"
  have "concat (map (\<lambda>(dx, dy).
         (let new_x = int x + dx; new_y = int y + dy
          in if 0 \<le> new_x \<and> new_x < int 5 \<and> 0 \<le> new_y \<and> new_y < int 5 \<and>
                s ! nat new_x ! nat new_y = CHR '' ''
             then [set_cell (set_cell s (nat new_x) (nat new_y) p) x y (CHR '' '')]
             else [])) directions) =
       concat (map (\<lambda>d. if ?A d \<and> ?E (?g d) then [?R (?g d)] else []) directions)"
    by (intro arg_cong[where f=concat] map_cong refl) (auto simp: Let_def relocate_def split: if_splits)
  also have "\<dots> = map ?R (filter ?E (map ?g (filter ?A directions)))"
    by (rule concat_if_guard)
  also have "map ?g (filter ?A directions) = in_bounds_neighbours (x, y)"
    by (simp add: in_bounds_neighbours_def)
  also have "in_bounds_neighbours (x, y) = filter (\<lambda>dst. chebyshev (x, y) dst = 1) all_cells"
    using neighbours_all assms by (auto simp: list_all_iff)
  finally show ?thesis by (simp add: o_def conj_commute)
qed

lemma succ_move_pairs:
  assumes "length s = 5" "length (s ! 0) = 5"
  shows "succ_move s p = map (relocate s p) (move_pairs s p)"
proof -
  have "map (\<lambda>(x, y). concat (map (\<lambda>(dx, dy).
         (let new_x = int x + dx; new_y = int y + dy
          in if 0 \<le> new_x \<and> new_x < int 5 \<and> 0 \<le> new_y \<and> new_y < int 5 \<and>
                s ! nat new_x ! nat new_y = CHR '' ''
             then [set_cell (set_cell s (nat new_x) (nat new_y) p) x y (CHR '' '')]
             else [])) directions)) (filter (\<lambda>(x, y). s ! x ! y = p) all_cells) =
        map (\<lambda>src. map (relocate s p) (map (Pair src)
         (filter (\<lambda>dst. chebyshev src dst = 1 \<and> s ! fst dst ! snd dst = CHR '' '') all_cells)))
         (filter (\<lambda>(x, y). s ! x ! y = p) all_cells)"
  proof (rule map_cong[OF refl])
    fix src assume "src \<in> set (filter (\<lambda>(x, y). s ! x ! y = p) all_cells)"
    then have "(fst src, snd src) \<in> set all_cells" by simp
    from neighbour_step[OF this, of s p]
    show "(case src of (x, y) \<Rightarrow> concat (map (\<lambda>(dx, dy).
         (let new_x = int x + dx; new_y = int y + dy
          in if 0 \<le> new_x \<and> new_x < int 5 \<and> 0 \<le> new_y \<and> new_y < int 5 \<and>
                s ! nat new_x ! nat new_y = CHR '' ''
             then [set_cell (set_cell s (nat new_x) (nat new_y) p) x y (CHR '' '')]
             else [])) directions)) =
        map (relocate s p) (map (Pair src)
         (filter (\<lambda>dst. chebyshev src dst = 1 \<and> s ! fst dst ! snd dst = CHR '' '') all_cells))"
      by (simp add: split_beta)
  qed
  then have "succ_move s p = concat (map (\<lambda>src. map (relocate s p) (map (Pair src)
         (filter (\<lambda>dst. chebyshev src dst = 1 \<and> s ! fst dst ! snd dst = CHR '' '') all_cells)))
         (filter (\<lambda>(x, y). s ! x ! y = p) all_cells))"
    unfolding succ_move_def piece_locs_filter assms by (rule arg_cong)
  also have "\<dots> = map (relocate s p) (move_pairs s p)"
    unfolding move_pairs_def map_concat map_map o_def by (rule refl)
  finally show ?thesis .
qed


lemma all_cells_set: "set all_cells = {(i, j). i < 5 \<and> j < 5}"
  by (auto simp: all_cells_def)

lemma all_cells_distinct: "distinct all_cells"
  by (simp add: all_cells_def distinct_product)

lemma empty_cells_set:
  "set (empty_cells s) = {(i, j). i < 5 \<and> j < 5 \<and> s ! i ! j = CHR '' ''}"
  by (auto simp: empty_cells_def all_cells_set)

lemma empty_cells_distinct: "distinct (empty_cells s)"
  by (simp add: empty_cells_def all_cells_distinct)

lemma move_pairs_set:
  "set (move_pairs s p) =
     {((x, y), (nx, ny)). x < 5 \<and> y < 5 \<and> nx < 5 \<and> ny < 5 \<and> s ! x ! y = p \<and>
        s ! nx ! ny = CHR '' '' \<and> chebyshev (x, y) (nx, ny) = 1}"
  by (auto simp: move_pairs_def all_cells_set)

lemma distinct_tagged_concat:
  "distinct xs \<Longrightarrow> (\<And>x. distinct (f x)) \<Longrightarrow>
   distinct (concat (map (\<lambda>x. map (Pair x) (f x)) xs))"
  by (induction xs) (auto simp: distinct_map inj_on_def)

lemma move_pairs_distinct: "distinct (move_pairs s p)"
  unfolding move_pairs_def
  by (rule distinct_tagged_concat) (simp_all add: all_cells_distinct)

lemma corner_destinations:
  assumes "((0, 0), dst) \<in> set (move_pairs s p)"
  shows "dst \<in> {(0, 1), (1, 0), (1, 1)}"
proof -
  obtain nx ny where d: "dst = (nx, ny)" by (cases dst)
  from assms have "chebyshev (0, 0) (nx, ny) = 1" by (simp add: move_pairs_set d)
  then have "nx \<le> 1 \<and> ny \<le> 1 \<and> (nx = 1 \<or> ny = 1)"
    by (auto simp: chebyshev_def max_def split: if_splits)
  then show ?thesis unfolding d by auto
qed

lemma wf_state_dims: "wf_state s \<Longrightarrow> length s = 5 \<and> length (s ! 0) = 5"
  by (auto simp: wf_state_def list_all_length)

text \<open>
  C5. On a well-formed state \<open>succ\<close> returns, with fewer than 8 pieces on the board, one
  successor per empty cell in row-major order (that cell set to the mover's piece), and
  otherwise one successor per pair of a cell holding the mover's piece and an empty cell of
  the grid at Chebyshev distance 1 (the piece relocated). The listed cells and pairs are
  distinct and are exactly those of the grid. From the corner (0,0) the only destinations
  are (0,1), (1,0) and (1,1): none outside the grid and none in row 4 or column 4.
\<close>

theorem succ_characterisation:
  assumes "wf_state state"
  shows "(total_pieces state < 8 \<longrightarrow>
            succ state p = map (\<lambda>(i, j). set_cell state i j p) (empty_cells state)) \<and>
         (\<not> total_pieces state < 8 \<longrightarrow>
            succ state p = map (relocate state p) (move_pairs state p)) \<and>
         distinct (empty_cells state) \<and>
         set (empty_cells state) = {(i, j). i < 5 \<and> j < 5 \<and> state ! i ! j = CHR '' ''} \<and>
         distinct (move_pairs state p) \<and>
         set (move_pairs state p) =
           {((x, y), (nx, ny)). x < 5 \<and> y < 5 \<and> nx < 5 \<and> ny < 5 \<and> state ! x ! y = p \<and>
              state ! nx ! ny = CHR '' '' \<and> chebyshev (x, y) (nx, ny) = 1} \<and>
         (\<forall>dst. ((0, 0), dst) \<in> set (move_pairs state p) \<longrightarrow> dst \<in> {(0, 1), (1, 0), (1, 1)})"
proof -
  from wf_state_dims[OF assms] have l: "length state = 5" "length (state ! 0) = 5" by simp_all
  show ?thesis
    using succ_drop_empty_cells[OF l, of p] succ_move_pairs[OF l, of p]
      empty_cells_distinct[of state] empty_cells_set[of state]
      move_pairs_distinct[of state p] move_pairs_set[of state p] corner_destinations[of _ state p]
    unfolding succ_def by simp
qed

theorem succ_characterisation_witness:
  "wf_state corner_board \<and> \<not> total_pieces corner_board < 8 \<and>
   succ corner_board (CHR ''b'') =
     map (relocate corner_board (CHR ''b'')) (move_pairs corner_board (CHR ''b'')) \<and>
   length (succ corner_board (CHR ''b'')) = 16 \<and>
   ((0, 0), (0, 1)) \<in> set (move_pairs corner_board (CHR ''b'')) \<and>
   (0, 1) \<in> {(0, 1), (1, 0), (1 :: nat, 1 :: nat)} \<and>
   wf_state five_piece_board \<and> total_pieces five_piece_board < 8 \<and>
   succ five_piece_board (CHR ''b'') =
     map (\<lambda>(i, j). set_cell five_piece_board i j (CHR ''b'')) (empty_cells five_piece_board) \<and>
   length (succ five_piece_board (CHR ''b'')) = 20"
proof -
  have w1: "wf_state corner_board" by code_simp
  have t1: "\<not> total_pieces corner_board < 8" by code_simp
  have m1: "((0, 0), (0, 1)) \<in> set (move_pairs corner_board (CHR ''b''))" by code_simp
  have n1: "length (move_pairs corner_board (CHR ''b'')) = 16" by code_simp
  have w2: "wf_state five_piece_board" by code_simp
  have t2: "total_pieces five_piece_board < 8" by code_simp
  have n2: "length (empty_cells five_piece_board) = 20" by code_simp
  note c = succ_characterisation[OF w1, of "CHR ''b''"]
  note f = succ_characterisation[OF w2, of "CHR ''b''"]
  from c t1 have s1: "succ corner_board (CHR ''b'') =
     map (relocate corner_board (CHR ''b'')) (move_pairs corner_board (CHR ''b''))"
    by blast
  from c m1 have d1: "(0, 1) \<in> {(0, 1), (1, 0), (1 :: nat, 1 :: nat)}" by blast
  from f t2 have s2: "succ five_piece_board (CHR ''b'') =
     map (\<lambda>(i, j). set_cell five_piece_board i j (CHR ''b'')) (empty_cells five_piece_board)"
    by blast
  from s1 n1 have l1: "length (succ corner_board (CHR ''b'')) = 16" by simp
  from s2 n2 have l2: "length (succ five_piece_board (CHR ''b'')) = 20" by simp
  from w1 t1 s1 l1 m1 d1 w2 t2 s2 l2 show ?thesis by blast
qed

section \<open>Round trip of move translation and place_piece\<close>

lemma wf_rows: "wf_state s \<Longrightarrow> i < 5 \<Longrightarrow> length (s ! i) = 5"
  by (auto simp: wf_state_def list_all_length)

lemma wf_len: "wf_state s \<Longrightarrow> length s = 5"
  by (simp add: wf_state_def)

lemma set_cell_length [simp]: "length (set_cell s i j v) = length s"
  by (simp add: set_cell_def)

lemma set_cell_row_length [simp]: "length (set_cell s i j v ! a) = length (s ! a)"
  by (cases "i < length s") (auto simp: set_cell_def nth_list_update not_less list_update_beyond)

lemma set_cell_read:
  "i < length s \<Longrightarrow> j < length (s ! i) \<Longrightarrow>
   set_cell s i j v ! a ! b = (if a = i \<and> b = j then v else s ! a ! b)"
  by (cases "a = i"; cases "b = j") (simp_all add: set_cell_def)

lemma board_eqI:
  assumes "length a = length b"
    and "\<And>i. i < length a \<Longrightarrow> length (a ! i) = length (b ! i)"
    and "\<And>i j. i < length a \<Longrightarrow> j < length (a ! i) \<Longrightarrow> a ! i ! j = b ! i ! j"
  shows "a = (b :: board)"
  using assms by (intro nth_equalityI) auto

lemma set_cell_commute:
  assumes "i < length s" "j < length (s ! i)" "a < length s" "b < length (s ! a)" "(i, j) \<noteq> (a, b)"
  shows "set_cell (set_cell s i j v) a b w = set_cell (set_cell s a b w) i j v"
  using assms by (intro board_eqI) (auto simp: set_cell_read)

lemma grid_cells_set: "set grid_cells = {(i, j). i < 5 \<and> j < 5}"
  by (auto simp: grid_cells_def)

lemma first_diff_unique:
  assumes "c \<in> set cells"
    and "\<forall>(a, b)\<in>set cells. (a, b) \<noteq> c \<longrightarrow> s ! a ! b = t ! a ! b"
    and "s ! fst c ! snd c \<noteq> t ! fst c ! snd c"
  shows "first_diff s t cells = [c]"
  using assms by (induction s t cells rule: first_diff.induct) (auto split: if_splits)

lemma scan_move_unique:
  assumes "\<forall>(a, b)\<in>set cells. (s ! a ! b = CHR '' '' \<and> t ! a ! b = mp) \<longleftrightarrow> (a, b) = D"
    and "\<forall>(a, b)\<in>set cells. (s ! a ! b = mp \<and> t ! a ! b = CHR '' '') \<longleftrightarrow> (a, b) = S"
    and "dest = Some D \<or> (dest = None \<and> D \<in> set cells)"
    and "source = Some S \<or> (source = None \<and> S \<in> set cells)"
  shows "scan_move mp s t cells dest source = (Some D, Some S)"
  using assms
  by (induction mp s t cells dest source rule: scan_move.induct)
     (auto simp: Let_def split: if_splits)

text \<open>
  C8. For a well-formed state and a state chosen among the successors \<open>succ\<close> generates for
  the own piece (a drop onto an empty cell with fewer than 8 pieces on the board, a one-step
  relocation otherwise), the move the translation step of \<open>make_move\<close> returns, applied to
  the original state by \<open>place_piece\<close>, gives the chosen state.
\<close>

theorem translate_round_trip:
  assumes wf: "wf_state state"
    and mp: "my_piece \<in> set pieces"
    and ch: "chosen \<in> set (succ state my_piece)"
  shows "place_piece state (translate my_piece state chosen) my_piece = Inr chosen"
proof (cases "total_pieces state < 8")
  case True
  have ne: "my_piece \<noteq> CHR '' ''" using mp by (auto simp: pieces_def)
  from True ch have "chosen \<in> set (succ_drop state my_piece)" by (simp add: succ_def)
  then obtain i j where ij: "i < 5" "j < 5" "state ! i ! j = CHR '' ''"
      and c: "chosen = set_cell state i j my_piece"
    by (auto simp: succ_drop_def wf_len[OF wf] wf_rows[OF wf])
  have b: "i < length state" "j < length (state ! i)"
    using ij wf_len[OF wf] wf_rows[OF wf] by simp_all
  have "first_diff state chosen grid_cells = [(i, j)]"
    by (rule first_diff_unique)
       (use ij ne in \<open>auto simp: grid_cells_set c set_cell_read[OF b]\<close>)
  then have "translate my_piece state chosen = [(i, j)]"
    using True by (simp add: translate_def drop_phase_def)
  then show ?thesis using b by (simp add: place_piece_def write_cell_def c)
next
  case False
  have ne: "my_piece \<noteq> CHR '' ''" using mp by (auto simp: pieces_def)
  from False ch have "chosen \<in> set (succ_move state my_piece)" by (simp add: succ_def)
  then obtain x y dx dy where xy: "(x, y) \<in> set (piece_locs state my_piece)"
      and d: "(dx, dy) \<in> set directions"
      and nb: "0 \<le> int x + dx" "int x + dx < 5" "0 \<le> int y + dy" "int y + dy < 5"
      and em: "state ! nat (int x + dx) ! nat (int y + dy) = CHR '' ''"
      and c: "chosen = set_cell (set_cell state (nat (int x + dx)) (nat (int y + dy)) my_piece) x y (CHR '' '')"
    by (auto simp: succ_move_def Let_def wf_len[OF wf] wf_rows[OF wf] split: if_splits)
  define nx ny where "nx = nat (int x + dx)" and "ny = nat (int y + dy)"
  have n5: "nx < 5" "ny < 5" using nb by (auto simp: nx_def ny_def)
  from xy have x5: "x < 5" "y < 5" and own: "state ! x ! y = my_piece"
    by (auto simp: piece_locs_def)
  have neq: "(nx, ny) \<noteq> (x, y)" using em own ne by (auto simp: nx_def ny_def)
  have bn: "nx < length state" "ny < length (state ! nx)"
    using n5 wf_len[OF wf] wf_rows[OF wf] by simp_all
  have bx: "x < length state" "y < length (state ! x)"
    using x5 wf_len[OF wf] wf_rows[OF wf] by simp_all
  have bx': "x < length (set_cell state nx ny my_piece)" "y < length (set_cell state nx ny my_piece ! x)"
    using bx by simp_all
  have c': "chosen = set_cell (set_cell state nx ny my_piece) x y (CHR '' '')"
    using c by (simp add: nx_def ny_def)
  have rd: "chosen ! a ! b = (if a = x \<and> b = y then CHR '' ''
              else if a = nx \<and> b = ny then my_piece else state ! a ! b)" for a b
    unfolding c' by (simp add: set_cell_read[OF bx'] set_cell_read[OF bn])
  have "scan_move my_piece state chosen grid_cells None None = (Some (nx, ny), Some (x, y))"
    by (rule scan_move_unique)
       (use n5 x5 neq ne em own in \<open>auto simp: grid_cells_set rd nx_def ny_def\<close>)
  then have "translate my_piece state chosen = [(nx, ny), (x, y)]"
    using False by (simp add: translate_def drop_phase_def)
  moreover have "set_cell (set_cell state x y (CHR '' '')) nx ny my_piece = chosen"
    unfolding c' using neq by (intro set_cell_commute bx bn) auto
  ultimately show ?thesis
    using bx bn by (simp add: place_piece_def write_cell_def)
qed

theorem translate_round_trip_witness:
  "wf_state corner_board \<and> CHR ''b'' \<in> set pieces \<and>
   relocate corner_board (CHR ''b'') ((2, 1), (1, 0)) \<in> set (succ corner_board (CHR ''b'')) \<and>
   translate (CHR ''b'') corner_board (relocate corner_board (CHR ''b'') ((2, 1), (1, 0)))
     = [(1, 0), (2, 1)] \<and>
   place_piece corner_board [(1, 0), (2, 1)] (CHR ''b'')
     = Inr (relocate corner_board (CHR ''b'') ((2, 1), (1, 0))) \<and>
   wf_state five_piece_board \<and>
   set_cell five_piece_board 1 0 (CHR ''b'') \<in> set (succ five_piece_board (CHR ''b'')) \<and>
   translate (CHR ''b'') five_piece_board (set_cell five_piece_board 1 0 (CHR ''b'')) = [(1, 0)] \<and>
   place_piece five_piece_board [(1, 0)] (CHR ''b'')
     = Inr (set_cell five_piece_board 1 0 (CHR ''b''))"
proof -
  have w1: "wf_state corner_board" by code_simp
  have w2: "wf_state five_piece_board" by code_simp
  have p: "CHR ''b'' \<in> set pieces" by (simp add: pieces_def)
  have m1: "relocate corner_board (CHR ''b'') ((2, 1), (1, 0)) \<in> set (succ corner_board (CHR ''b''))"
    by code_simp
  have m2: "set_cell five_piece_board 1 0 (CHR ''b'') \<in> set (succ five_piece_board (CHR ''b''))"
    by code_simp
  have t1: "translate (CHR ''b'') corner_board (relocate corner_board (CHR ''b'') ((2, 1), (1, 0)))
     = [(1, 0), (2, 1)]"
    by code_simp
  have t2: "translate (CHR ''b'') five_piece_board (set_cell five_piece_board 1 0 (CHR ''b'')) = [(1, 0)]"
    by code_simp
  from translate_round_trip[OF w1 p m1] t1
  have r1: "place_piece corner_board [(1, 0), (2, 1)] (CHR ''b'')
     = Inr (relocate corner_board (CHR ''b'') ((2, 1), (1, 0)))"
    by simp
  from translate_round_trip[OF w2 p m2] t2
  have r2: "place_piece five_piece_board [(1, 0)] (CHR ''b'')
     = Inr (set_cell five_piece_board 1 0 (CHR ''b''))"
    by simp
  from w1 w2 p m1 m2 t1 t2 r1 r2 show ?thesis by blast
qed

section \<open>Properties of minimax\<close>

text \<open>
  C4. At a state whose \<open>game_value\<close> is \<open>v\<close>, not 0, \<open>minimax\<close> returns \<open>v\<close> paired with
  the state itself, for every depth, depth limit, alpha and beta; the result is the same
  for every heuristic, and it is the first branch of \<open>minimax\<close>, before any successor is
  generated.
\<close>

theorem terminal_value_returned:
  assumes "game_value my_piece state = v" and "v \<noteq> 0"
  shows "minimax my_piece max_depth h state depth alpha beta = (Fin (real_of_int v), Some state) \<and>
         minimax my_piece max_depth h' state depth alpha beta
           = minimax my_piece max_depth h state depth alpha beta"
  using assms
  by (simp add: minimax.simps[of my_piece max_depth h state depth]
        minimax.simps[of my_piece max_depth h' state depth])

theorem terminal_value_returned_witness:
  "game_value (CHR ''b'') (row0_board (CHR ''b'')) = 1 \<and> (1 :: int) \<noteq> 0 \<and>
   minimax (CHR ''b'') 3 (\<lambda>s. 0) (row0_board (CHR ''b'')) 0 NegInf PosInf
     = (Fin 1, Some (row0_board (CHR ''b''))) \<and>
   minimax (CHR ''b'') 3 (\<lambda>s. 1) (row0_board (CHR ''b'')) 0 NegInf PosInf
     = minimax (CHR ''b'') 3 (\<lambda>s. 0) (row0_board (CHR ''b'')) 0 NegInf PosInf"
proof -
  have g: "game_value (CHR ''b'') (row0_board (CHR ''b'')) = 1" by code_simp
  have n: "(1 :: int) \<noteq> 0" by simp
  from terminal_value_returned[OF g n, of 3 "\<lambda>s. 0" 0 NegInf PosInf "\<lambda>s. 1"] g
  show ?thesis by simp
qed

lemma pyfloat_less_simps [simp]:
  "NegInf < Fin x" "Fin x < PosInf" "NegInf < PosInf"
  "\<not> Fin x < NegInf" "\<not> PosInf < p" "\<not> p < NegInf"
  "Fin x < Fin z \<longleftrightarrow> x < z"
  by (cases p; auto simp: less_pyfloat_def)+

lemma pyfloat_bounds [simp]: "NegInf \<le> p" "p \<le> PosInf"
  by (cases p; simp)+

lemma max_loop_ge: "bv \<le> fst (max_loop ev cs bv bs a b)"
proof (induction cs arbitrary: bv bs a)
  case Nil show ?case by simp
next
  case (Cons c cs)
  show ?case
  proof (cases "bv < ev c a b")
    case True
    with order_trans[OF less_imp_le[OF True] Cons] show ?thesis
      by (simp add: Let_def less_imp_le)
  next
    case False
    with Cons[of bv] show ?thesis by (simp add: Let_def)
  qed
qed

lemma plain_max_loop_ge: "bv \<le> fst (plain_max_loop ev cs bv bs)"
proof (induction cs arbitrary: bv bs)
  case Nil show ?case by simp
next
  case (Cons c cs)
  show ?case
  proof (cases "bv < ev c")
    case True
    with order_trans[OF less_imp_le[OF True] Cons] show ?thesis
      by (simp add: Let_def less_imp_le)
  next
    case False
    with Cons[of bv] show ?thesis by (simp add: Let_def)
  qed
qed

lemma min_loop_le: "fst (min_loop ev cs bv bs a b) \<le> bv"
proof (induction cs arbitrary: bv bs b)
  case Nil show ?case by simp
next
  case (Cons c cs)
  show ?case
  proof (cases "ev c a b < bv")
    case True
    with order_trans[OF Cons less_imp_le[OF True]] show ?thesis
      by (simp add: Let_def less_imp_le)
  next
    case False
    with Cons[of bv] show ?thesis by (simp add: Let_def)
  qed
qed

lemma plain_min_loop_le: "fst (plain_min_loop ev cs bv bs) \<le> bv"
proof (induction cs arbitrary: bv bs)
  case Nil show ?case by simp
next
  case (Cons c cs)
  show ?case
  proof (cases "ev c < bv")
    case True
    with order_trans[OF Cons less_imp_le[OF True]] show ?thesis
      by (simp add: Let_def less_imp_le)
  next
    case False
    with Cons[of bv] show ?thesis by (simp add: Let_def)
  qed
qed

lemma max_loop_sound:
  assumes "\<And>c a b. c \<in> set cs \<Longrightarrow> a < b \<Longrightarrow> window_sound (ev c a b) (evf c) a b"
    and "a < b" and "bvf \<le> bv" and "bv \<le> a"
  shows "(b \<le> fst (max_loop ev cs bv bs a b) \<longrightarrow>
            fst (max_loop ev cs bv bs a b) \<le> fst (plain_max_loop evf cs bvf bsf)) \<and>
         (fst (max_loop ev cs bv bs a b) < b \<longrightarrow>
            fst (plain_max_loop evf cs bvf bsf) \<le> fst (max_loop ev cs bv bs a b)) \<and>
         (a < fst (max_loop ev cs bv bs a b) \<and> fst (max_loop ev cs bv bs a b) < b \<longrightarrow>
            fst (max_loop ev cs bv bs a b) \<le> fst (plain_max_loop evf cs bvf bsf))"
  using assms
proof (induction cs arbitrary: bv bs bvf bsf a)
  case Nil
  then show ?case by auto
next
  case (Cons c cs)
  define r where "r = ev c a b"
  define v where "v = evf c"
  define bv' where "bv' = (if bv < r then r else bv)"
  define bs' where "bs' = (if bv < r then Some c else bs)"
  define bvf' where "bvf' = (if bvf < v then v else bvf)"
  define bsf' where "bsf' = (if bvf < v then Some c else bsf)"
  define a' where "a' = max a bv'"
  define R' where "R' = fst (max_loop ev cs bv' bs' a' b)"
  define V' where "V' = fst (plain_max_loop evf cs bvf' bsf')"
  have R: "fst (max_loop ev (c # cs) bv bs a b) = (if b \<le> a' then bv' else R')"
    by (simp add: Let_def r_def bv'_def bs'_def a'_def R'_def)
  have V: "fst (plain_max_loop evf (c # cs) bvf bsf) = V'"
    by (simp add: Let_def v_def bvf'_def bsf'_def V'_def)
  have ws: "(r \<le> a \<longrightarrow> v \<le> r) \<and> (b \<le> r \<longrightarrow> r \<le> v) \<and> (a < r \<and> r < b \<longrightarrow> r = v)"
    using Cons.prems(1)[of c a b] Cons.prems(2) by (simp add: window_sound_def r_def v_def)
  have bv': "bv \<le> bv'" "r \<le> bv'" "bv' = r \<or> bv' = bv" by (auto simp: bv'_def)
  have bvf': "bvf \<le> bvf'" "v \<le> bvf'" "bvf' = v \<or> bvf' = bvf" by (auto simp: bvf'_def)
  have a': "a \<le> a'" "bv' \<le> a'" "a' = a \<or> a' = bv'" by (auto simp: a'_def max_def)
  have vge: "bvf' \<le> V'" unfolding V'_def by (rule plain_max_loop_ge)
  have rge: "bv' \<le> R'" unfolding R'_def by (rule max_loop_ge)
  note p = Cons.prems(2,3,4)
  show ?case
  proof (cases "b \<le> a'")
    case True
    with p bv' a' have "b \<le> r" "bv' = r" by auto
    with ws bvf' vge have "bv' \<le> V'" by auto
    with True p bv' a' show ?thesis unfolding R V by auto
  next
    case False
    then have ab: "a' < b" by (rule iffD1[OF not_le])
    with bv' a' have rlt: "r < b" by auto
    with ws have vr: "v \<le> r" by (cases "r \<le> a") auto
    with bv' bvf' p have le: "bvf' \<le> bv'" by (auto simp: bv'_def bvf'_def)
    have IH: "(b \<le> R' \<longrightarrow> R' \<le> V') \<and> (R' < b \<longrightarrow> V' \<le> R') \<and> (a' < R' \<and> R' < b \<longrightarrow> R' \<le> V')"
      unfolding R'_def V'_def
      by (rule Cons.IH) (use Cons.prems(1) ab le a' in auto)
    have third: "R' \<le> V'" if h: "a < R'" "R' < b"
    proof (cases "a' < R'")
      case True
      with IH h show ?thesis by blast
    next
      case F: False
      with h rge a' have eq: "R' = bv'" "a < bv'" by auto
      with p bv' have "bv' = r" "a < r" by auto
      with ws rlt have "r = v" by simp
      with \<open>bv' = r\<close> eq bvf' vge show ?thesis by auto
    qed
    show ?thesis unfolding R V using False IH third by auto
  qed
qed


lemma min_loop_sound:
  assumes "\<And>c a b. c \<in> set cs \<Longrightarrow> a < b \<Longrightarrow> window_sound (ev c a b) (evf c) a b"
    and "a < b" and "bv \<le> bvf" and "b \<le> bv"
  shows "(fst (min_loop ev cs bv bs a b) \<le> a \<longrightarrow>
            fst (plain_min_loop evf cs bvf bsf) \<le> fst (min_loop ev cs bv bs a b)) \<and>
         (a < fst (min_loop ev cs bv bs a b) \<longrightarrow>
            fst (min_loop ev cs bv bs a b) \<le> fst (plain_min_loop evf cs bvf bsf)) \<and>
         (a < fst (min_loop ev cs bv bs a b) \<and> fst (min_loop ev cs bv bs a b) < b \<longrightarrow>
            fst (plain_min_loop evf cs bvf bsf) \<le> fst (min_loop ev cs bv bs a b))"
  using assms
proof (induction cs arbitrary: bv bs bvf bsf b)
  case Nil
  then show ?case by auto
next
  case (Cons c cs)
  define r where "r = ev c a b"
  define v where "v = evf c"
  define bv' where "bv' = (if r < bv then r else bv)"
  define bs' where "bs' = (if r < bv then Some c else bs)"
  define bvf' where "bvf' = (if v < bvf then v else bvf)"
  define bsf' where "bsf' = (if v < bvf then Some c else bsf)"
  define b' where "b' = min b bv'"
  define R' where "R' = fst (min_loop ev cs bv' bs' a b')"
  define V' where "V' = fst (plain_min_loop evf cs bvf' bsf')"
  have R: "fst (min_loop ev (c # cs) bv bs a b) = (if b' \<le> a then bv' else R')"
    by (simp add: Let_def r_def bv'_def bs'_def b'_def R'_def)
  have V: "fst (plain_min_loop evf (c # cs) bvf bsf) = V'"
    by (simp add: Let_def v_def bvf'_def bsf'_def V'_def)
  have ws: "(r \<le> a \<longrightarrow> v \<le> r) \<and> (b \<le> r \<longrightarrow> r \<le> v) \<and> (a < r \<and> r < b \<longrightarrow> r = v)"
    using Cons.prems(1)[of c a b] Cons.prems(2) by (simp add: window_sound_def r_def v_def)
  have bv': "bv' \<le> bv" "bv' \<le> r" "bv' = r \<or> bv' = bv" by (auto simp: bv'_def)
  have bvf': "bvf' \<le> bvf" "bvf' \<le> v" "bvf' = v \<or> bvf' = bvf" by (auto simp: bvf'_def)
  have b': "b' \<le> b" "b' \<le> bv'" "b' = b \<or> b' = bv'" by (auto simp: b'_def min_def)
  have vle: "V' \<le> bvf'" unfolding V'_def by (rule plain_min_loop_le)
  have rle: "R' \<le> bv'" unfolding R'_def by (rule min_loop_le)
  note p = Cons.prems(2,3,4)
  show ?case
  proof (cases "b' \<le> a")
    case True
    with p bv' b' have "r \<le> a" "bv' = r" by auto
    with ws bvf' vle have "V' \<le> bv'" by auto
    with True p bv' b' show ?thesis unfolding R V by auto
  next
    case False
    then have ab: "a < b'" by (rule iffD1[OF not_le])
    with bv' b' have rgt: "a < r" by auto
    with ws have vr: "r \<le> v" by (cases "b \<le> r") auto
    with bv' bvf' p have le: "bv' \<le> bvf'" by (auto simp: bv'_def bvf'_def)
    have IH: "(R' \<le> a \<longrightarrow> V' \<le> R') \<and> (a < R' \<longrightarrow> R' \<le> V') \<and> (a < R' \<and> R' < b' \<longrightarrow> V' \<le> R')"
      unfolding R'_def V'_def
      by (rule Cons.IH) (use Cons.prems(1) ab le b' in auto)
    have third: "V' \<le> R'" if h: "a < R'" "R' < b"
    proof (cases "R' < b'")
      case True
      with IH h show ?thesis by blast
    next
      case F: False
      with h rle b' have eq: "R' = bv'" "bv' < b" by auto
      with p bv' have "bv' = r" "r < b" by auto
      with ws rgt have "r = v" by simp
      with \<open>bv' = r\<close> eq bvf' vle show ?thesis by auto
    qed
    show ?thesis unfolding R V using False IH third by auto
  qed
qed

lemma minimax_window_sound:
  "a < b \<Longrightarrow> window_sound (fst (minimax mp md h s d a b)) (fst (minimax_plain mp md h s d)) a b"
proof (induction mp md h s d a b rule: minimax.induct)
  case (1 mp md h s d a b)
  let ?ev = "\<lambda>s a b. fst (minimax mp md h s (d + 1) a b)"
  let ?evf = "\<lambda>s. fst (minimax_plain mp md h s (d + 1))"
  consider (leaf) "game_value mp s \<noteq> 0 \<or> md \<le> d"
    | (mx) "game_value mp s = 0" "\<not> md \<le> d" "d mod 2 = 0"
    | (mn) "game_value mp s = 0" "\<not> md \<le> d" "d mod 2 \<noteq> 0"
    by blast
  then show ?case
  proof cases
    case leaf
    then show ?thesis
      by (auto simp: minimax.simps[of mp md h s d] minimax_plain.simps[of mp md h s d]
            window_sound_def Let_def)
  next
    case mx
    show ?thesis
    proof (cases "succ s mp = []")
      case True
      with mx show ?thesis
        by (simp add: minimax.simps[of mp md h s d] minimax_plain.simps[of mp md h s d]
              window_sound_def Let_def)
    next
      case False
      have ch: "\<And>c a b. c \<in> set (succ s mp) \<Longrightarrow> a < b \<Longrightarrow> window_sound (?ev c a b) (?evf c) a b"
        using "1.IH"(1)[OF refl _ _ _ refl False] mx by simp
      from max_loop_sound[of "succ s mp" ?ev ?evf a b NegInf NegInf None None, OF ch "1.prems"]
      have "window_sound (fst (max_loop ?ev (succ s mp) NegInf None a b))
              (fst (plain_max_loop ?evf (succ s mp) NegInf None)) a b"
        using "1.prems" unfolding window_sound_def by auto
      with mx False show ?thesis
        by (simp add: minimax.simps[of mp md h s d] minimax_plain.simps[of mp md h s d] Let_def)
    qed
  next
    case mn
    let ?o = "opponent_piece mp"
    show ?thesis
    proof (cases "succ s ?o = []")
      case True
      with mn show ?thesis
        by (simp add: minimax.simps[of mp md h s d] minimax_plain.simps[of mp md h s d]
              window_sound_def Let_def)
    next
      case False
      have ch: "\<And>c a b. c \<in> set (succ s ?o) \<Longrightarrow> a < b \<Longrightarrow> window_sound (?ev c a b) (?evf c) a b"
        using "1.IH"(2)[OF refl _ _ _ refl False] mn by simp
      from min_loop_sound[of "succ s ?o" ?ev ?evf a b PosInf PosInf None None, OF ch "1.prems"]
      have "window_sound (fst (min_loop ?ev (succ s ?o) PosInf None a b))
              (fst (plain_min_loop ?evf (succ s ?o) PosInf None)) a b"
        using "1.prems" unfolding window_sound_def by auto
      with mn False show ?thesis
        by (simp add: minimax.simps[of mp md h s d] minimax_plain.simps[of mp md h s d] Let_def)
    qed
  qed
qed


lemma max_loop_finite:
  assumes "\<And>c a b. c \<in> set cs \<Longrightarrow> \<exists>x. ev c a b = Fin x"
    and "bv \<noteq> PosInf" and "cs \<noteq> [] \<or> bv \<noteq> NegInf"
  shows "\<exists>x. fst (max_loop ev cs bv bs a b) = Fin x"
  using assms
proof (induction cs arbitrary: bv bs a)
  case Nil
  then show ?case by (cases bv) auto
next
  case (Cons c cs)
  from Cons.prems(1)[of c a b] obtain x where x: "ev c a b = Fin x" by auto
  define bv' where "bv' = (if bv < ev c a b then ev c a b else bv)"
  have fin: "\<exists>y. bv' = Fin y" using x Cons.prems(2) by (cases bv) (auto simp: bv'_def)
  then have "\<exists>x. fst (max_loop ev cs bv' bs' a' b) = Fin x" for bs' a'
    by (intro Cons.IH) (use Cons.prems(1) in auto)
  with fin show ?case by (auto simp: Let_def bv'_def)
qed

lemma min_loop_finite:
  assumes "\<And>c a b. c \<in> set cs \<Longrightarrow> \<exists>x. ev c a b = Fin x"
    and "bv \<noteq> NegInf" and "cs \<noteq> [] \<or> bv \<noteq> PosInf"
  shows "\<exists>x. fst (min_loop ev cs bv bs a b) = Fin x"
  using assms
proof (induction cs arbitrary: bv bs b)
  case Nil
  then show ?case by (cases bv) auto
next
  case (Cons c cs)
  from Cons.prems(1)[of c a b] obtain x where x: "ev c a b = Fin x" by auto
  define bv' where "bv' = (if ev c a b < bv then ev c a b else bv)"
  have fin: "\<exists>y. bv' = Fin y" using x Cons.prems(2) by (cases bv) (auto simp: bv'_def)
  then have "\<exists>x. fst (min_loop ev cs bv' bs' a b') = Fin x" for bs' b'
    by (intro Cons.IH) (use Cons.prems(1) in auto)
  with fin show ?case by (auto simp: Let_def bv'_def)
qed

lemma minimax_finite: "\<exists>x. fst (minimax mp md h s d a b) = Fin x"
proof (induction mp md h s d a b rule: minimax.induct)
  case (1 mp md h s d a b)
  let ?ev = "\<lambda>s a b. fst (minimax mp md h s (d + 1) a b)"
  consider (leaf) "game_value mp s \<noteq> 0 \<or> md \<le> d"
    | (mx) "game_value mp s = 0" "\<not> md \<le> d" "d mod 2 = 0"
    | (mn) "game_value mp s = 0" "\<not> md \<le> d" "d mod 2 \<noteq> 0"
    by blast
  then show ?case
  proof cases
    case leaf
    then show ?thesis by (auto simp: minimax.simps[of mp md h s d] Let_def)
  next
    case mx
    show ?thesis
    proof (cases "succ s mp = []")
      case True
      with mx show ?thesis by (simp add: minimax.simps[of mp md h s d] Let_def)
    next
      case False
      have "\<And>c a b. c \<in> set (succ s mp) \<Longrightarrow> \<exists>x. ?ev c a b = Fin x"
        using "1.IH"(1)[OF refl _ _ _ refl False] mx by simp
      from max_loop_finite[of "succ s mp" ?ev, OF this, of NegInf None a b] False mx
      show ?thesis by (simp add: minimax.simps[of mp md h s d] Let_def)
    qed
  next
    case mn
    let ?o = "opponent_piece mp"
    show ?thesis
    proof (cases "succ s ?o = []")
      case True
      with mn show ?thesis by (simp add: minimax.simps[of mp md h s d] Let_def)
    next
      case False
      have "\<And>c a b. c \<in> set (succ s ?o) \<Longrightarrow> \<exists>x. ?ev c a b = Fin x"
        using "1.IH"(2)[OF refl _ _ _ refl False] mn by simp
      from min_loop_finite[of "succ s ?o" ?ev, OF this, of PosInf None a b] False mn
      show ?thesis by (simp add: minimax.simps[of mp md h s d] Let_def)
    qed
  qed
qed

lemma min_loop_full_window:
  assumes "\<And>c b. c \<in> set cs \<Longrightarrow> NegInf < b \<Longrightarrow> window_sound (ev c NegInf b) (evf c) NegInf b"
    and "\<And>c b. c \<in> set cs \<Longrightarrow> NegInf < ev c NegInf b"
    and "NegInf < bv"
  shows "min_loop ev cs bv bs NegInf bv = plain_min_loop evf cs bv bs"
  using assms
proof (induction cs arbitrary: bv bs)
  case Nil
  show ?case by simp
next
  case (Cons c cs)
  define r where "r = ev c NegInf bv"
  define v where "v = evf c"
  have ws: "(bv \<le> r \<longrightarrow> r \<le> v) \<and> (NegInf < r \<and> r < bv \<longrightarrow> r = v)"
    using Cons.prems(1)[of c bv] Cons.prems(3) by (simp add: window_sound_def r_def v_def)
  have rf: "NegInf < r" using Cons.prems(2)[of c bv] by (simp add: r_def)
  then have rn: "\<not> r \<le> NegInf" by (simp add: not_le)
  from Cons.prems(3) have bn: "\<not> bv \<le> NegInf" by (simp add: not_le)
  show ?case
  proof (cases "r < bv")
    case True
    with ws rf have rv: "r = v" by simp
    from True have mr: "min bv r = r" by (simp add: min_absorb2 less_imp_le)
    have "min_loop ev cs r (Some c) NegInf r = plain_min_loop evf cs r (Some c)"
      by (rule Cons.IH) (use Cons.prems rf in auto)
    with True rv rn mr show ?thesis
      by (simp add: Let_def r_def[symmetric] v_def[symmetric])
  next
    case False
    with ws have nv: "\<not> v < bv" by auto
    have "min_loop ev cs bv bs NegInf bv = plain_min_loop evf cs bv bs"
      by (rule Cons.IH) (use Cons.prems in auto)
    with False nv bn show ?thesis
      by (simp add: Let_def r_def[symmetric] v_def[symmetric])
  qed
qed

lemma max_loop_full_window:
  assumes "\<And>c a. c \<in> set cs \<Longrightarrow> a < PosInf \<Longrightarrow> window_sound (ev c a PosInf) (evf c) a PosInf"
    and "\<And>c a. c \<in> set cs \<Longrightarrow> ev c a PosInf < PosInf"
    and "bv < PosInf"
  shows "max_loop ev cs bv bs bv PosInf = plain_max_loop evf cs bv bs"
  using assms
proof (induction cs arbitrary: bv bs)
  case Nil
  show ?case by simp
next
  case (Cons c cs)
  define r where "r = ev c bv PosInf"
  define v where "v = evf c"
  have ws: "(r \<le> bv \<longrightarrow> v \<le> r) \<and> (bv < r \<and> r < PosInf \<longrightarrow> r = v)"
    using Cons.prems(1)[of c bv] Cons.prems(3) by (simp add: window_sound_def r_def v_def)
  have rf: "r < PosInf" using Cons.prems(2)[of c bv] by (simp add: r_def)
  then have rn: "\<not> PosInf \<le> r" by (simp add: not_le)
  from Cons.prems(3) have bn: "\<not> PosInf \<le> bv" by (simp add: not_le)
  show ?case
  proof (cases "bv < r")
    case True
    with ws rf have rv: "r = v" by simp
    from True have mr: "max bv r = r" by (simp add: max_absorb2 less_imp_le)
    have "max_loop ev cs r (Some c) r PosInf = plain_max_loop evf cs r (Some c)"
      by (rule Cons.IH) (use Cons.prems rf in auto)
    with True rv rn mr show ?thesis
      by (simp add: Let_def r_def[symmetric] v_def[symmetric])
  next
    case False
    with ws have nv: "\<not> bv < v" by auto
    have "max_loop ev cs bv bs bv PosInf = plain_max_loop evf cs bv bs"
      by (rule Cons.IH) (use Cons.prems in auto)
    with False nv bn show ?thesis
      by (simp add: Let_def r_def[symmetric] v_def[symmetric])
  qed
qed

text \<open>
  C1. Started with the full window (alpha minus infinity, beta plus infinity), \<open>minimax\<close>
  with its cut-offs returns the same value and the same chosen state as the exhaustive
  depth-limited minimax with the same first-strict-improvement rule, for every state,
  depth limit and heuristic.
\<close>

theorem alpha_beta_same_choice:
  "minimax my_piece max_depth h state depth NegInf PosInf =
     minimax_plain my_piece max_depth h state depth"
proof -
  let ?ev = "\<lambda>s a b. fst (minimax my_piece max_depth h s (depth + 1) a b)"
  let ?evf = "\<lambda>s. fst (minimax_plain my_piece max_depth h s (depth + 1))"
  have ws: "\<And>c a b. a < b \<Longrightarrow> window_sound (?ev c a b) (?evf c) a b"
    by (rule minimax_window_sound)
  have fin: "NegInf < ?ev c a b \<and> ?ev c a b < PosInf" for c a b
    using minimax_finite[of my_piece max_depth h c "depth + 1" a b] by auto
  have mx: "max_loop ?ev cs NegInf None NegInf PosInf = plain_max_loop ?evf cs NegInf None" for cs
    using max_loop_full_window[of cs ?ev ?evf NegInf None] ws fin by simp
  have mn: "min_loop ?ev cs PosInf None NegInf PosInf = plain_min_loop ?evf cs PosInf None" for cs
    using min_loop_full_window[of cs ?ev ?evf PosInf None] ws fin by simp
  show ?thesis
    unfolding minimax.simps[of my_piece max_depth h state depth]
      minimax_plain.simps[of my_piece max_depth h state depth] mx mn ..
qed

theorem alpha_beta_same_choice_witness:
  "minimax (CHR ''b'') 2 (row1_count (CHR ''b'')) corner_board 0 NegInf PosInf =
     minimax_plain (CHR ''b'') 2 (row1_count (CHR ''b'')) corner_board 0 \<and>
   snd (minimax_plain (CHR ''b'') 2 (row1_count (CHR ''b'')) corner_board 0) =
     Some (relocate corner_board (CHR ''b'') ((0, 0), (0, 1)))"
proof -
  have "snd (minimax (CHR ''b'') 2 (row1_count (CHR ''b'')) corner_board 0 NegInf PosInf) =
     Some (relocate corner_board (CHR ''b'') ((0, 0), (0, 1)))"
    by code_simp
  with alpha_beta_same_choice[of "CHR ''b''" 2 "row1_count (CHR ''b'')" corner_board 0]
  show ?thesis by simp
qed

section \<open>Frame properties of succ on the store\<close>

lemma frame_agree: "frame h h' \<longleftrightarrow> agree_on UNIV h h'"
  unfolding frame_def agree_on_def
  by (auto simp: list_eq_iff_nth_eq)

lemma frame_refl: "frame h h"
  by (simp add: frame_def)

lemma frame_trans: "frame h h1 \<Longrightarrow> frame h1 h2 \<Longrightarrow> frame h h2"
  unfolding frame_agree agree_on_def by auto

lemma frame_append: "frame h (h @ e)"
  by (simp add: frame_def)

lemma agree_grid:
  assumes "valid_grid h g" and "reach h g \<subseteq> A" and "agree_on A h h'"
  shows "valid_grid h' g \<and> grid_rows h' g = grid_rows h g \<and>
         board_of h' g = board_of h g \<and> reach h' g = reach h g"
proof -
  from assms(1) obtain rs where g: "g < length h" "h ! g = Grid rs" "distinct rs"
      and rows: "\<forall>r\<in>set rs. r < length h \<and> (\<exists>cs. h ! r = Row cs)"
    by (auto simp: valid_grid_def list_all_iff)
  have gr: "grid_rows h g = rs" using g by (simp add: grid_rows_def)
  with assms(2) have inA: "g \<in> A" "set rs \<subseteq> A" by (auto simp: reach_def)
  from assms(3) have len: "length h \<le> length h'" by (simp add: agree_on_def)
  from assms(3) inA g have g': "g < length h'" "h' ! g = Grid rs"
    using len by (auto simp: agree_on_def)
  have rows': "\<forall>r\<in>set rs. r < length h' \<and> h' ! r = h ! r"
    using assms(3) inA rows len by (auto simp: agree_on_def)
  have gr': "grid_rows h' g = rs" using g' by (simp add: grid_rows_def)
  have "valid_grid h' g"
    using g' g(3) rows rows' by (auto simp: valid_grid_def list_all_iff)
  moreover have "board_of h' g = board_of h g"
    unfolding board_of_def gr gr' using rows rows' by (auto simp: row_of_def)
  moreover have "reach h' g = reach h g" by (simp add: reach_def gr gr')
  ultimately show ?thesis using gr gr' by simp
qed

lemma valid_reach_bound: "valid_grid h g \<Longrightarrow> reach h g \<subseteq> {..<length h}"
  by (auto simp: valid_grid_def reach_def grid_rows_def list_all_iff)

lemma frame_grid:
  assumes "valid_grid h g" and "frame h h'"
  shows "valid_grid h' g \<and> grid_rows h' g = grid_rows h g \<and>
         board_of h' g = board_of h g \<and> reach h' g = reach h g"
  using agree_grid[OF assms(1), of UNIV h'] assms(2) by (simp add: frame_agree)

lemma row_of_append: "r < length h \<Longrightarrow> row_of (h @ e) r = row_of h r"
  by (simp add: row_of_def nth_append)

lemma shift_refs: "l # map (\<lambda>k. Suc l + k) [0..<n] = map (\<lambda>k. l + k) [0..<Suc n]"
  by (induction n) simp_all

lemma copy_rows_closed:
  "distinct rs \<Longrightarrow> fst ` set memo \<inter> set rs = {} \<Longrightarrow> \<forall>r\<in>set rs. r < length h \<Longrightarrow>
   copy_rows h memo rs =
     (h @ map (\<lambda>r. Row (row_of h r)) rs, map (\<lambda>k. length h + k) [0..<length rs])"
proof (induction rs arbitrary: h memo)
  case Nil
  show ?case by simp
next
  case (Cons r rs)
  have none: "map_of memo r = None"
    using Cons.prems(2) by (auto simp: map_of_eq_None_iff)
  let ?h = "h @ [Row (row_of h r)]"
  have "copy_rows ?h ((r, length h) # memo) rs =
          (?h @ map (\<lambda>r. Row (row_of ?h r)) rs, map (\<lambda>k. length ?h + k) [0..<length rs])"
    by (rule Cons.IH) (use Cons.prems in auto)
  moreover have "map (\<lambda>r. Row (row_of ?h r)) rs = map (\<lambda>r. Row (row_of h r)) rs"
    using Cons.prems(3) by (simp add: row_of_append)
  ultimately have "copy_rows ?h ((r, length h) # memo) rs =
          (h @ Row (row_of h r) # map (\<lambda>r. Row (row_of h r)) rs,
           map (\<lambda>k. Suc (length h) + k) [0..<length rs])"
    by simp
  with none shift_refs[of "length h" "length rs"] show ?case
    by (simp add: Let_def del: upt_Suc)
qed

lemma deepcopy_closed:
  assumes "valid_grid h g"
  shows "deepcopy h g =
     (h @ Grid (map (\<lambda>k. Suc (length h) + k) [0..<length (grid_rows h g)])
          # map (\<lambda>r. Row (row_of h r)) (grid_rows h g), length h)"
proof -
  from assms obtain rs where g: "g < length h" "h ! g = Grid rs" "distinct rs"
      and rows: "\<forall>r\<in>set rs. r < length h \<and> (\<exists>cs. h ! r = Row cs)"
    by (auto simp: valid_grid_def list_all_iff)
  have gr: "grid_rows h g = rs" using g by (simp add: grid_rows_def)
  let ?h = "h @ [Grid []]"
  have "copy_rows ?h [] rs =
          (?h @ map (\<lambda>r. Row (row_of ?h r)) rs, map (\<lambda>k. length ?h + k) [0..<length rs])"
    by (rule copy_rows_closed) (use g rows in auto)
  moreover have "map (\<lambda>r. Row (row_of ?h r)) rs = map (\<lambda>r. Row (row_of h r)) rs"
    using rows by (simp add: row_of_append)
  ultimately show ?thesis
    by (simp add: deepcopy_def gr Let_def list_update_append)
qed

lemma deepcopy_props:
  assumes "valid_grid h g" and "deepcopy h g = (h1, c)"
  shows "frame h h1 \<and> valid_grid h1 c \<and> reach h1 c = {length h..<length h1} \<and>
         board_of h1 c = board_of h g"
proof -
  let ?rs = "grid_rows h g"
  let ?n = "length ?rs"
  let ?l = "length h"
  let ?new = "map (\<lambda>k. Suc ?l + k) [0..<?n]"
  from assms deepcopy_closed[OF assms(1)]
  have h1: "h1 = h @ Grid ?new # map (\<lambda>r. Row (row_of h r)) ?rs" and c: "c = ?l"
    by auto
  have len: "length h1 = Suc ?l + ?n" by (simp add: h1)
  have gc: "h1 ! c = Grid ?new" by (simp add: h1 c nth_append)
  have rowk: "h1 ! (Suc ?l + k) = Row (row_of h (?rs ! k))" if "k < ?n" for k
    using that by (simp add: h1 nth_append)
  have grc: "grid_rows h1 c = ?new"
    using gc len by (simp add: grid_rows_def c)
  have "frame h h1" unfolding h1 by (rule frame_append)
  moreover have "valid_grid h1 c"
    unfolding valid_grid_def gc
  proof (intro conjI exI[of _ ?new] refl)
    show "c < length h1" by (simp add: len c)
    show "distinct ?new" by (simp add: distinct_map inj_on_def)
    show "list_all (\<lambda>r. r < length h1 \<and> (\<exists>cs. h1 ! r = Row cs)) ?new"
      unfolding list_all_iff
    proof
      fix r assume "r \<in> set ?new"
      then obtain k where "r = Suc ?l + k" "k < ?n" by auto
      then show "r < length h1 \<and> (\<exists>cs. h1 ! r = Row cs)"
        using rowk[of k] len by auto
    qed
  qed
  moreover have "reach h1 c = {?l..<length h1}"
  proof -
    have s: "set ?new = {Suc ?l..<Suc ?l + ?n}"
      by (auto simp: image_iff le_iff_add)
    have "reach h1 c = insert c (set ?new)" unfolding reach_def grc ..
    also have "\<dots> = {?l..<length h1}" unfolding s len c by auto
    finally show ?thesis .
  qed
  moreover have "board_of h1 c = board_of h g"
  proof (rule nth_equalityI)
    show "length (board_of h1 c) = length (board_of h g)" by (simp add: board_of_def grc)
    fix k assume "k < length (board_of h1 c)"
    then have k: "k < ?n" by (simp add: board_of_def grc)
    then have "row_of h1 (Suc ?l + k) = row_of h (?rs ! k)"
      using rowk[OF k] len by (simp add: row_of_def)
    with k show "board_of h1 c ! k = board_of h g ! k"
      by (simp add: board_of_def grc)
  qed
  ultimately show ?thesis by blast
qed


lemma set_cell_beyond:
  "\<not> (i < length b \<and> j < length (b ! i)) \<Longrightarrow> set_cell b i j v = b"
  by (cases "i < length b") (simp_all add: set_cell_def list_update_beyond not_less)

lemma write_cell_props:
  assumes "valid_grid h c"
  shows "agree_on (- set (grid_rows h c)) h (write_cell_h h c i j v) \<and>
         length (write_cell_h h c i j v) = length h \<and>
         valid_grid (write_cell_h h c i j v) c \<and>
         grid_rows (write_cell_h h c i j v) c = grid_rows h c \<and>
         board_of (write_cell_h h c i j v) c = set_cell (board_of h c) i j v"
proof -
  from assms obtain rs where g: "c < length h" "h ! c = Grid rs" "distinct rs"
      and rows: "\<forall>r\<in>set rs. r < length h \<and> (\<exists>cs. h ! r = Row cs)"
    by (auto simp: valid_grid_def list_all_iff)
  have gr: "grid_rows h c = rs" using g by (simp add: grid_rows_def)
  show ?thesis
  proof (cases "i < length rs \<and> j < length (row_of h (rs ! i))")
    case False
    then have w: "write_cell_h h c i j v = h"
      by (auto simp: write_cell_h_def gr Let_def)
    from False have "set_cell (board_of h c) i j v = board_of h c"
      by (intro set_cell_beyond) (auto simp: board_of_def gr)
    with assms gr show ?thesis unfolding w by (simp add: agree_on_def)
  next
    case True
    define r where "r = rs ! i"
    define cs where "cs = row_of h r"
    from True have ri: "r \<in> set rs" by (simp add: r_def)
    with rows have rl: "r < length h" and rrow: "\<exists>cs. h ! r = Row cs" by auto
    from rrow g have rc: "r \<noteq> c" by auto
    let ?h = "h[r := Row (cs[j := v])]"
    have w: "write_cell_h h c i j v = ?h"
      using True rl by (simp add: write_cell_h_def gr Let_def r_def cs_def)
    have gc: "?h ! c = Grid rs" using rc g by simp
    have gr': "grid_rows ?h c = rs" using gc g by (simp add: grid_rows_def)
    have rowk: "row_of ?h (rs ! k) = (if k = i then cs[j := v] else row_of h (rs ! k))"
      if "k < length rs" for k
    proof (cases "k = i")
      case True
      then show ?thesis using rl by (simp add: row_of_def r_def[symmetric])
    next
      case False
      with that \<open>distinct rs\<close> True have "rs ! k \<noteq> r"
        by (auto simp: r_def nth_eq_iff_index_eq)
      with False show ?thesis by (simp add: row_of_def)
    qed
    have "agree_on (- set (grid_rows h c)) h ?h"
      unfolding agree_on_def gr
    proof (intro conjI ballI impI)
      show "length h \<le> length ?h" by simp
      fix a assume "a \<in> - set rs"
      with ri have "a \<noteq> r" by auto
      then show "?h ! a = h ! a" by simp
    qed
    moreover have "valid_grid ?h c"
      unfolding valid_grid_def gc
    proof (intro conjI exI[of _ rs] refl)
      show "c < length ?h" using g by simp
      show "distinct rs" by fact
      show "list_all (\<lambda>r. r < length ?h \<and> (\<exists>cs. ?h ! r = Row cs)) rs"
        unfolding list_all_iff
      proof
        fix x assume "x \<in> set rs"
        with rows have "x < length h" "\<exists>cs. h ! x = Row cs" by auto
        then show "x < length ?h \<and> (\<exists>cs. ?h ! x = Row cs)"
          by (cases "x = r") (simp_all add: rl)
      qed
    qed
    moreover have "board_of ?h c = set_cell (board_of h c) i j v"
    proof (rule nth_equalityI)
      show "length (board_of ?h c) = length (set_cell (board_of h c) i j v)"
        by (simp add: board_of_def gr gr' set_cell_def)
      fix k assume "k < length (board_of ?h c)"
      then have k: "k < length rs" by (simp add: board_of_def gr')
      have "board_of ?h c ! k = row_of ?h (rs ! k)"
        using k by (simp add: board_of_def gr')
      also have "\<dots> = (if k = i then cs[j := v] else row_of h (rs ! k))"
        by (rule rowk[OF k])
      also have "\<dots> = set_cell (board_of h c) i j v ! k"
        using k True by (simp add: board_of_def gr set_cell_def nth_list_update cs_def r_def)
      finally show "board_of ?h c ! k = set_cell (board_of h c) i j v ! k" .
    qed
    ultimately show ?thesis unfolding w using gr gr' by simp
  qed
qed

lemma writes_props:
  assumes "valid_grid h c"
  shows "agree_on (- set (grid_rows h c)) h (foldl (\<lambda>h' (a, b, v). write_cell_h h' c a b v) h ws) \<and>
         length (foldl (\<lambda>h' (a, b, v). write_cell_h h' c a b v) h ws) = length h \<and>
         valid_grid (foldl (\<lambda>h' (a, b, v). write_cell_h h' c a b v) h ws) c \<and>
         grid_rows (foldl (\<lambda>h' (a, b, v). write_cell_h h' c a b v) h ws) c = grid_rows h c \<and>
         board_of (foldl (\<lambda>h' (a, b, v). write_cell_h h' c a b v) h ws) c =
           foldl (\<lambda>b (a, c, v). set_cell b a c v) (board_of h c) ws"
  using assms
proof (induction ws arbitrary: h)
  case Nil
  then show ?case by (simp add: agree_on_def)
next
  case (Cons w ws)
  obtain a b v where w: "w = (a, b, v)" by (cases w)
  let ?h = "write_cell_h h c a b v"
  note wp = write_cell_props[OF Cons.prems, of a b v]
  then have v1: "valid_grid ?h c" by simp
  note ih = Cons.IH[OF v1]
  have "agree_on (- set (grid_rows h c)) h (foldl (\<lambda>h' (a, b, v). write_cell_h h' c a b v) ?h ws)"
    using wp ih by (auto simp: agree_on_def)
  with wp ih show ?case unfolding w by simp
qed

lemma emit_props:
  assumes "valid_grid h g" and "emit h g cands = (h', cs)"
  shows "frame h h' \<and>
         (\<forall>c\<in>set cs. valid_grid h' c \<and> reach h' c \<subseteq> {length h..<length h'}) \<and>
         (\<forall>k<length cs. \<forall>m<length cs. k \<noteq> m \<longrightarrow> reach h' (cs ! k) \<inter> reach h' (cs ! m) = {}) \<and>
         map (board_of h') cs = emit_boards (board_of h g) cands"
  using assms
proof (induction h g cands arbitrary: h' cs rule: emit.induct)
  case (1 h g)
  then show ?case by (simp add: frame_refl)
next
  case (2 h g i j ws rest)
  show ?case
  proof (cases "read_cell h g i j = CHR '' ''")
    case False
    with "2.prems" have "emit h g rest = (h', cs)" by simp
    from "2.IH"(2)[OF False "2.prems"(1) this] False show ?thesis
      by (simp add: read_cell_def)
  next
    case True
    obtain h1 c where dc: "deepcopy h g = (h1, c)" by (cases "deepcopy h g")
    define h2 where "h2 = foldl (\<lambda>h' (a, b, v). write_cell_h h' c a b v) h1 ws"
    obtain h3 cs' where em: "emit h2 g rest = (h3, cs')" by (cases "emit h2 g rest")
    from "2.prems"(2) True dc em have res: "h' = h3" "cs = c # cs'"
      by (simp_all add: h2_def Let_def)
    note dp = deepcopy_props[OF "2.prems"(1) dc]
    then have v1: "valid_grid h1 c" by simp
    note wp = writes_props[OF v1, of ws, folded h2_def]
    have rows1: "set (grid_rows h1 c) \<subseteq> {length h..<length h1}"
      using dp by (auto simp: reach_def)
    have f2: "frame h h2"
      unfolding frame_agree agree_on_def
    proof (intro conjI ballI impI)
      show "length h \<le> length h2" using dp wp by (simp add: frame_def)
      fix a assume a: "a < length h"
      with rows1 have "a \<notin> set (grid_rows h1 c)" by auto
      with wp a dp have "h2 ! a = h1 ! a" by (auto simp: agree_on_def frame_def)
      also have "h1 ! a = h ! a" using dp a by (auto simp: frame_agree agree_on_def)
      finally show "h2 ! a = h ! a" .
    qed
    note g2 = frame_grid[OF "2.prems"(1) f2]
    then have vg2: "valid_grid h2 g" by simp
    note ih = "2.IH"(1)[OF True refl dc[symmetric] h2_def vg2 em]
    then have f3: "frame h2 h3" by simp
    from wp have vc2: "valid_grid h2 c" by simp
    note c3 = frame_grid[OF vc2 f3]
    have r2: "reach h2 c = {length h..<length h2}"
      using dp wp by (simp add: reach_def)
    have l23: "length h2 \<le> length h3" using f3 by (simp add: frame_def)
    have l02: "length h \<le> length h2" using f2 by (simp add: frame_def)
    have rc3: "reach h3 c = {length h..<length h2}" using c3 r2 by simp
    have b3: "board_of h3 c = foldl (\<lambda>b (a, c, v). set_cell b a c v) (board_of h g) ws"
      using c3 wp dp by simp
    have "frame h h'" unfolding res by (rule frame_trans[OF f2 f3])
    moreover have "\<forall>c\<in>set cs. valid_grid h' c \<and> reach h' c \<subseteq> {length h..<length h'}"
    proof
      fix x assume "x \<in> set cs"
      then consider "x = c" | "x \<in> set cs'" by (auto simp: res)
      then show "valid_grid h' x \<and> reach h' x \<subseteq> {length h..<length h'}"
      proof cases
        case 1
        have "{length h..<length h2} \<subseteq> {length h..<length h3}" using l23 by auto
        with c3 rc3 show ?thesis unfolding res 1 by simp
      next
        case 2
        with ih have "valid_grid h3 x" "reach h3 x \<subseteq> {length h2..<length h3}" by auto
        moreover have "{length h2..<length h3} \<subseteq> {length h..<length h3}" using l02 by auto
        ultimately show ?thesis unfolding res by blast
      qed
    qed
    moreover have "\<forall>k<length cs. \<forall>m<length cs. k \<noteq> m \<longrightarrow>
                     reach h' (cs ! k) \<inter> reach h' (cs ! m) = {}"
    proof (intro allI impI)
      fix k m assume km: "k < length cs" "m < length cs" "k \<noteq> m"
      have tail: "reach h3 (cs' ! n) \<subseteq> {length h2..<length h3}" if "n < length cs'" for n
        using ih that by (auto simp: all_set_conv_all_nth)
      show "reach h' (cs ! k) \<inter> reach h' (cs ! m) = {}"
      proof (cases k)
        case 0
        with km obtain m' where m': "m = Suc m'" "m' < length cs'"
          by (cases m) (auto simp: res)
        with tail[of m'] rc3 0 show ?thesis unfolding res by auto
      next
        case (Suc k')
        with km have k': "k' < length cs'" by (simp add: res)
        show ?thesis
        proof (cases m)
          case 0
          with tail[of k'] rc3 Suc k' show ?thesis unfolding res by auto
        next
          case m: (Suc m')
          with km Suc have "m' < length cs'" "k' \<noteq> m'" by (auto simp: res)
          with ih k' show ?thesis unfolding res Suc m by simp
        qed
      qed
    qed
    moreover have "map (board_of h') cs = emit_boards (board_of h g) (((i, j), ws) # rest)"
      using True b3 ih g2 unfolding res by (simp add: read_cell_def)
    ultimately show ?thesis by blast
  qed
qed


lemma emit_boards_append:
  "emit_boards s (xs @ ys) = emit_boards s xs @ emit_boards s ys"
  by (induction s xs rule: emit_boards.induct) auto

lemma emit_boards_concat:
  "emit_boards s (concat xss) = concat (map (emit_boards s) xss)"
  by (induction xss) (auto simp: emit_boards_append)

lemma emit_boards_drop_row:
  "emit_boards s (map (\<lambda>j. ((i, j), [(i, j, p)])) js) =
     concat (map (\<lambda>j. if s ! i ! j = CHR '' '' then [set_cell s i j p] else []) js)"
  by (induction js) auto

lemma emit_boards_drop: "emit_boards s (drop_candidates s p) = succ_drop s p"
  unfolding drop_candidates_def succ_drop_def
  by (simp add: emit_boards_concat emit_boards_drop_row o_def)

lemma emit_boards_move_dirs:
  "emit_boards s (concat (map (\<lambda>(dx, dy).
         (let new_x = int x + dx; new_y = int y + dy
          in if 0 \<le> new_x \<and> new_x < int (length s) \<and>
                0 \<le> new_y \<and> new_y < int (length (s ! 0))
             then [((nat new_x, nat new_y),
                    [(nat new_x, nat new_y, p), (x, y, CHR '' '')])]
             else [])) ds)) =
   concat (map (\<lambda>(dx, dy).
         (let new_x = int x + dx; new_y = int y + dy
          in if 0 \<le> new_x \<and> new_x < int (length s) \<and>
                0 \<le> new_y \<and> new_y < int (length (s ! 0)) \<and>
                s ! nat new_x ! nat new_y = CHR '' ''
             then [set_cell (set_cell s (nat new_x) (nat new_y) p) x y (CHR '' '')]
             else [])) ds)"
  by (induction ds) (auto simp: Let_def emit_boards_append)

lemma emit_boards_move: "emit_boards s (move_candidates s p) = succ_move s p"
  unfolding move_candidates_def succ_move_def emit_boards_concat map_map
  by (intro arg_cong[where f=concat] map_cong refl) (auto simp: emit_boards_move_dirs)

lemma emit_boards_candidates: "emit_boards s (candidates s p) = succ s p"
  by (simp add: candidates_def succ_def emit_boards_drop emit_boards_move)

text \<open>
  C9. Run on a store holding a well-formed state, \<open>succ\<close> leaves every object that
  existed before the call as it was, so the input state reads cell for cell as before; the
  returned successors denote the boards of the value-level \<open>succ\<close>; and a write to any
  cell of one successor afterwards changes neither the input state nor any other successor.
\<close>

theorem succ_store_frame:
  assumes "valid_grid h g" and "wf_state (board_of h g)"
    and "succ_store h g my_piece = (h', cs)"
  shows "board_of h' g = board_of h g \<and> frame h h' \<and>
         map (board_of h') cs = succ (board_of h g) my_piece \<and>
         (\<forall>k<length cs. \<forall>i j v.
            board_of (write_cell_h h' (cs ! k) i j v) g = board_of h g \<and>
            (\<forall>m<length cs. m \<noteq> k \<longrightarrow>
               board_of (write_cell_h h' (cs ! k) i j v) (cs ! m) = board_of h' (cs ! m)))"
proof -
  from assms(3) have em: "emit h g (candidates (board_of h g) my_piece) = (h', cs)"
    by (simp add: succ_store_def)
  note ep = emit_props[OF assms(1) em]
  then have fr: "frame h h'" by simp
  note g' = frame_grid[OF assms(1) fr]
  have rg: "reach h' g \<subseteq> {..<length h}"
    using g' valid_reach_bound[OF assms(1)] by simp
  have indep: "board_of (write_cell_h h' (cs ! k) i j v) g = board_of h g \<and>
            (\<forall>m<length cs. m \<noteq> k \<longrightarrow>
               board_of (write_cell_h h' (cs ! k) i j v) (cs ! m) = board_of h' (cs ! m))"
    if k: "k < length cs" for k i j v
  proof -
    let ?c = "cs ! k"
    let ?w = "write_cell_h h' ?c i j v"
    from ep k have vc: "valid_grid h' ?c" and rc: "reach h' ?c \<subseteq> {length h..<length h'}"
      by (auto simp: all_set_conv_all_nth)
    note wp = write_cell_props[OF vc, of i j v]
    have out: "agree_on A h' ?w" if "A \<inter> reach h' ?c = {}" for A
      using wp that by (auto simp: agree_on_def reach_def)
    have "reach h' g \<inter> reach h' ?c \<subseteq> {..<length h} \<inter> {length h..<length h'}"
      using rg rc by blast
    also have "\<dots> = {}" by auto
    finally have "reach h' g \<inter> reach h' ?c = {}" by simp
    from agree_grid[OF _ subset_refl out[OF this]] g'
    have "board_of ?w g = board_of h g" by simp
    moreover have "board_of ?w (cs ! m) = board_of h' (cs ! m)" if m: "m < length cs" "m \<noteq> k" for m
    proof -
      from ep m k have "valid_grid h' (cs ! m)" "reach h' (cs ! m) \<inter> reach h' ?c = {}"
        by (auto simp: all_set_conv_all_nth)
      from agree_grid[OF this(1) subset_refl out[OF this(2)]] show ?thesis by simp
    qed
    ultimately show ?thesis by blast
  qed
  from ep g' indep show ?thesis by (simp add: emit_boards_candidates)
qed


theorem succ_store_frame_witness:
  "valid_grid corner_store 5 \<and> wf_state (board_of corner_store 5) \<and>
   board_of (fst (succ_store corner_store 5 (CHR ''b''))) 5 = corner_board \<and>
   length (snd (succ_store corner_store 5 (CHR ''b''))) = 16 \<and>
   board_of (write_cell_h (fst (succ_store corner_store 5 (CHR ''b'')))
               (snd (succ_store corner_store 5 (CHR ''b'')) ! 0) 2 2 (CHR ''b'')) 5 = corner_board \<and>
   board_of (write_cell_h (fst (succ_store corner_store 5 (CHR ''b'')))
               (snd (succ_store corner_store 5 (CHR ''b'')) ! 0) 2 2 (CHR ''b''))
            (snd (succ_store corner_store 5 (CHR ''b'')) ! 1)
     = succ corner_board (CHR ''b'') ! 1"
proof -
  let ?R = "succ_store corner_store 5 (CHR ''b'')"
  have b: "board_of corner_store 5 = corner_board" by code_simp
  have v: "valid_grid corner_store 5"
    by (simp add: valid_grid_def corner_store_def corner_board_def nth_append)
  have w: "wf_state (board_of corner_store 5)" unfolding b by code_simp
  have n: "length (succ corner_board (CHR ''b'')) = 16" by code_simp
  note t = succ_store_frame[OF v w prod.collapse[symmetric, of ?R], unfolded b]
  from t have m: "map (board_of (fst ?R)) (snd ?R) = succ corner_board (CHR ''b'')" by blast
  from arg_cong[OF m, of length] n have l: "length (snd ?R) = 16" by simp
  from t l have i: "board_of (write_cell_h (fst ?R) (snd ?R ! 0) 2 2 (CHR ''b'')) 5 = corner_board"
    "board_of (write_cell_h (fst ?R) (snd ?R ! 0) 2 2 (CHR ''b'')) (snd ?R ! 1)
       = board_of (fst ?R) (snd ?R ! 1)"
    by auto
  from arg_cong[OF m, of "\<lambda>xs. xs ! 1"] l
  have "board_of (fst ?R) (snd ?R ! 1) = succ corner_board (CHR ''b'') ! 1" by simp
  with t v w l i show ?thesis by simp
qed

end
